theory Spec2Isabelle
  imports Main "HOL-Library.Sublist"
begin

section \<open>Errors and outcomes\<close>

text \<open>
  The Go code reports failures as \<^verbatim>\<open>error\<close> values; a run-time panic (nil dereference,
  index out of range, failed type assertion) ends the call without a result.  Both are
  values of \<open>error\<close> here; \<open>NoReturn\<close> stands for a loop of the source that keeps running.
  \<open>Unmodelled\<close> is no outcome of the program: it marks the one place where the model does
  not determine what the program answers (\<open>deepEqualNode\<close> below).
\<close>

datatype error =
    ErrCollectionEmpty
  | ErrValueRequired
  | ErrNotFound
  | ErrPrefixViolation
  | ErrUnsupportedCharacter
  | ErrPlaceOutOfRange
  | ErrIndexOutOfBounds
  | ErrChildExists
  | ErrInvalidConfiguration
  | Panic
  | NoReturn
  | Unmodelled

text \<open>A call that panics or does not return gives no result to its caller.\<close>

definition crashed :: "error \<Rightarrow> bool" where
  "crashed e = (e = Panic \<or> e = NoReturn)"

section \<open>strings.TrimSpace\<close>

text \<open>
  \<^verbatim>\<open>strings.TrimSpace\<close> belongs to the Go standard library.  It removes, from both ends
  of the byte string, every UTF-8 encoded code point for which \<^verbatim>\<open>unicode.IsSpace\<close> holds:
  the six ASCII characters tab, line feed, vertical tab, form feed, carriage return and
  space, and U+0085, U+00A0, U+1680, U+2000 to U+200A, U+2028, U+2029, U+202F, U+205F,
  U+3000.  \<open>spaceRunes\<close> lists their encodings.
\<close>

definition spaceRunes :: "string list" where
  "spaceRunes =
    [[CHR 0x09], [CHR 0x0A], [CHR 0x0B], [CHR 0x0C], [CHR 0x0D], [CHR 0x20],
     [CHR 0xC2, CHR 0x85], [CHR 0xC2, CHR 0xA0],
     [CHR 0xE1, CHR 0x9A, CHR 0x80],
     [CHR 0xE2, CHR 0x80, CHR 0x80], [CHR 0xE2, CHR 0x80, CHR 0x81],
     [CHR 0xE2, CHR 0x80, CHR 0x82], [CHR 0xE2, CHR 0x80, CHR 0x83],
     [CHR 0xE2, CHR 0x80, CHR 0x84], [CHR 0xE2, CHR 0x80, CHR 0x85],
     [CHR 0xE2, CHR 0x80, CHR 0x86], [CHR 0xE2, CHR 0x80, CHR 0x87],
     [CHR 0xE2, CHR 0x80, CHR 0x88], [CHR 0xE2, CHR 0x80, CHR 0x89],
     [CHR 0xE2, CHR 0x80, CHR 0x8A],
     [CHR 0xE2, CHR 0x80, CHR 0xA8], [CHR 0xE2, CHR 0x80, CHR 0xA9],
     [CHR 0xE2, CHR 0x80, CHR 0xAF],
     [CHR 0xE2, CHR 0x81, CHR 0x9F],
     [CHR 0xE3, CHR 0x80, CHR 0x80]]"

text \<open>The number of bytes of the rune of \<open>ws\<close> that starts \<open>s\<close>; 0 when there is none.\<close>

definition runeLen :: "string list \<Rightarrow> string \<Rightarrow> nat" where
  "runeLen ws s = (case List.find (\<lambda>w. prefix w s) ws of None \<Rightarrow> 0 | Some w \<Rightarrow> length w)"

function stripRunes :: "string list \<Rightarrow> string \<Rightarrow> string" where
  "stripRunes ws s =
     (if runeLen ws s = 0 then s else stripRunes ws (drop (runeLen ws s) s))"
  by pat_completeness auto

lemma runeLen_le: "runeLen ws s \<le> length s"
  by (auto simp: runeLen_def find_Some_iff prefix_def split: option.splits)

termination stripRunes
proof (relation "measure (\<lambda>(ws, s). length s)")
  show "wf (measure (\<lambda>(ws, s). length s))" by simp
next
  fix ws :: "string list" and s :: string
  assume "runeLen ws s \<noteq> 0"
  moreover have "runeLen ws s \<le> length s" by (rule runeLen_le)
  ultimately show "((ws, drop (runeLen ws s) s), (ws, s)) \<in> measure (\<lambda>(ws, s). length s)"
    by simp
qed

declare stripRunes.simps [simp del]

definition TrimLeft :: "string \<Rightarrow> string" where
  "TrimLeft s = stripRunes spaceRunes s"

definition TrimRight :: "string \<Rightarrow> string" where
  "TrimRight s = rev (stripRunes (map rev spaceRunes) (rev s))"

definition TrimSpace :: "string \<Rightarrow> string" where
  "TrimSpace s = TrimRight (TrimLeft s)"

section \<open>Digitizer (digitizer.go)\<close>

text \<open>
  The \<^verbatim>\<open>Digitizer\<close> interface as a record of its methods.  \<^verbatim>\<open>FormatDigit\<close> is a display
  helper that no operation of the trie calls.
\<close>

record digitizer =
  Base :: int
  IsPrefixFree :: bool
  NumDigitsOf :: "string \<Rightarrow> int"
  DigitOf :: "string \<Rightarrow> int \<Rightarrow> error + int"

text \<open>
  \<^verbatim>\<open>asciiTable\<close> maps the 95 printable ASCII characters, space (32) to tilde (126), to
  1 .. 95 in code order; the table of the source lists exactly these pairs.
\<close>

definition asciiTable :: "char \<Rightarrow> int option" where
  "asciiTable c =
     (let n = (of_char c :: nat) in if 32 \<le> n \<and> n \<le> 126 then Some (int n - 31) else None)"

text \<open>
  \<^verbatim>\<open>asciiDigitizer.DigitOf\<close>.  A negative place at a non-blank value indexes the string
  out of range, which panics.
\<close>

definition asciiDigitOf :: "int \<Rightarrow> string \<Rightarrow> int \<Rightarrow> error + int" where
  "asciiDigitOf base value0 place =
     (let v = TrimSpace value0 in
      if v = [] \<or> place \<ge> int (length v) then Inr 0
      else if place > base then Inl ErrPlaceOutOfRange
      else if place < 0 then Inl Panic
      else (case asciiTable (v ! nat place) of
              None \<Rightarrow> Inl ErrUnsupportedCharacter
            | Some i \<Rightarrow> Inr i))"

definition NewASCIIDigitizer :: digitizer where
  "NewASCIIDigitizer =
     \<lparr> Base = 95 + 1,
       IsPrefixFree = True,
       NumDigitsOf = (\<lambda>v. int (length v) + 1),
       DigitOf = asciiDigitOf (95 + 1) \<rparr>"

section \<open>Nodes and leaves (node.go)\<close>

text \<open>
  The node tree is a value: an internal node owns the array of its child slots, and a
  leaf of the tree is the address of its \<^verbatim>\<open>leaf\<close> object, which lives in the store of
  the trie because the overlay list links the same objects.  A node's \<^verbatim>\<open>parent\<close>
  reference is its position in the tree: positions are paths of child indices from the
  root, and \<^verbatim>\<open>Parent()\<close> of the node at path \<open>p\<close> is the node at \<open>butlast p\<close>, \<^verbatim>\<open>nil\<close> for the
  root.  Internal nodes never receive a value (\<^verbatim>\<open>SetValue\<close> is called on new leaves
  only), so the \<^verbatim>\<open>value\<close> field is kept for leaves alone.
\<close>

type_synonym addr = nat

datatype node =
    Node (children: "node option list") (isRoot: bool) (numChildren: int)
  | Leaf (leafAddr: addr)

type_synonym path = "int list"

datatype 'd entry = Entry (Value: string) (Data: "'d option")

record 'd leaf =
  lvalue :: "'d entry option"
  "next" :: "addr option"
  previous :: "addr option"
  isHead :: bool
  isTail :: bool

definition newNode :: "int \<Rightarrow> node" where
  "newNode capacity =
     (if capacity \<le> 0 then Node [] False 0 else Node (replicate (nat capacity) None) False 0)"

text \<open>\<^verbatim>\<open>make([]Node, capacity)\<close> panics on a negative capacity.\<close>

definition newRootNode :: "int \<Rightarrow> error + node" where
  "newRootNode capacity =
     (if capacity < 0 then Inl Panic else Inr (Node (replicate (nat capacity) None) True 0))"

text \<open>The child array of a node; a leaf delegates to a node of capacity 0.\<close>

fun slots :: "node \<Rightarrow> node option list" where
  "slots (Node cs r n) = cs"
| "slots (Leaf a) = []"

fun AddChild :: "node \<Rightarrow> int \<Rightarrow> node \<Rightarrow> error + node" where
  "AddChild (Node cs r n) index child =
     (if index < 0 \<or> index \<ge> int (length cs) then Inl ErrIndexOutOfBounds
      else if cs ! nat index \<noteq> None then Inl ErrChildExists
      else Inr (Node (cs[nat index := Some child]) r (n + 1)))"
| "AddChild (Leaf a) index child = Inl ErrIndexOutOfBounds"

text \<open>
  \<^verbatim>\<open>checkBounds\<close> accepts \<^verbatim>\<open>index == len(n.children)\<close>; the slice access that follows it
  in \<^verbatim>\<open>ChildAt\<close> and \<^verbatim>\<open>RemoveChildAt\<close> then panics.
\<close>

definition checkBounds :: "node \<Rightarrow> int \<Rightarrow> error option" where
  "checkBounds n index =
     (if index < 0 \<or> index > int (length (slots n)) then Some ErrIndexOutOfBounds else None)"

definition ChildAt :: "node \<Rightarrow> int \<Rightarrow> error + node option" where
  "ChildAt n index =
     (case checkBounds n index of
        Some e \<Rightarrow> Inl e
      | None \<Rightarrow> if nat index < length (slots n) then Inr (slots n ! nat index) else Inl Panic)"

fun RemoveChildAt :: "node \<Rightarrow> int \<Rightarrow> error + (bool \<times> node)" where
  "RemoveChildAt (Node cs r n) index =
     (case checkBounds (Node cs r n) index of
        Some e \<Rightarrow> Inr (False, Node cs r n)
      | None \<Rightarrow>
          if nat index < length cs then
            (if cs ! nat index \<noteq> None then Inr (True, Node (cs[nat index := None]) r (n - 1))
             else Inr (False, Node cs r n))
          else Inl Panic)"
| "RemoveChildAt (Leaf a) index =
     (case checkBounds (Leaf a) index of
        Some e \<Rightarrow> Inr (False, Leaf a)
      | None \<Rightarrow> Inl Panic)"

definition HasChildren :: "node \<Rightarrow> bool" where
  "HasChildren n = (case n of Node cs r k \<Rightarrow> k > 0 | Leaf a \<Rightarrow> False)"

definition IsRoot :: "node \<Rightarrow> bool" where
  "IsRoot n = (case n of Node cs r k \<Rightarrow> r | Leaf a \<Rightarrow> False)"

definition IsLeaf :: "node \<Rightarrow> bool" where
  "IsLeaf n = (case n of Node cs r k \<Rightarrow> False | Leaf a \<Rightarrow> True)"


text \<open>The node reached from \<open>n\<close> along a path of child indices.\<close>

fun lookup :: "node \<Rightarrow> path \<Rightarrow> node option" where
  "lookup n [] = Some n"
| "lookup n (i # p) =
     (if 0 \<le> i \<and> nat i < length (slots n) then
        (case slots n ! nat i of None \<Rightarrow> None | Some c \<Rightarrow> lookup c p)
      else None)"

text \<open>The tree after the node at a path has been rewritten in place.\<close>

fun replaceAt :: "node \<Rightarrow> path \<Rightarrow> node \<Rightarrow> node" where
  "replaceAt n [] m = m"
| "replaceAt (Leaf a) (i # p) m = Leaf a"
| "replaceAt (Node cs r k) (i # p) m =
     (if 0 \<le> i \<and> nat i < length cs then
        (case cs ! nat i of
           None \<Rightarrow> Node cs r k
         | Some c \<Rightarrow> Node (cs[nat i := Some (replaceAt c p m)]) r k)
      else Node cs r k)"

text \<open>A node reference: \<^verbatim>\<open>nil\<close>, or the position of a node in the tree under \<open>r\<close>.\<close>

definition deref :: "node option \<Rightarrow> path option \<Rightarrow> node option" where
  "deref r po =
     (case po of None \<Rightarrow> None
      | Some p \<Rightarrow> (case r of None \<Rightarrow> None | Some n \<Rightarrow> lookup n p))"

subsection \<open>The leaf objects and their links\<close>

type_synonym 'd store = "'d leaf list"

definition newLeaf :: "'d leaf" where
  "newLeaf = \<lparr> lvalue = None, next = None, previous = None, isHead = False, isTail = False \<rparr>"

definition SetNext :: "'d store \<Rightarrow> addr \<Rightarrow> addr option \<Rightarrow> 'd store" where
  "SetNext cs a x = cs[a := (cs ! a)\<lparr>next := x\<rparr>]"

definition SetPrevious :: "'d store \<Rightarrow> addr \<Rightarrow> addr option \<Rightarrow> 'd store" where
  "SetPrevious cs a x = cs[a := (cs ! a)\<lparr>previous := x\<rparr>]"

definition SetValue :: "'d store \<Rightarrow> addr \<Rightarrow> 'd entry option \<Rightarrow> 'd store" where
  "SetValue cs a e = cs[a := (cs ! a)\<lparr>lvalue := e\<rparr>]"

text \<open>\<^verbatim>\<open>IsDeleted\<close>: the previous link is cleared.\<close>

definition IsDeleted :: "'d store \<Rightarrow> addr \<Rightarrow> bool" where
  "IsDeleted cs a = (previous (cs ! a) = None)"

text \<open>\<^verbatim>\<open>l.AddAfter(leafNode)\<close>; the last statement dereferences \<^verbatim>\<open>l.next\<close>.\<close>

definition AddAfter :: "'d store \<Rightarrow> addr \<Rightarrow> addr \<Rightarrow> error + 'd store" where
  "AddAfter cs l leafNode =
     (let cs1 = SetNext cs l (next (cs ! leafNode));
          cs2 = SetNext cs1 leafNode (Some l);
          cs3 = SetPrevious cs2 l (Some leafNode)
      in case next (cs3 ! l) of
           None \<Rightarrow> Inl Panic
         | Some n \<Rightarrow> Inr (SetPrevious cs3 n (Some l)))"

text \<open>\<^verbatim>\<open>l.Remove()\<close>: unlink from both neighbours, then \<^verbatim>\<open>markDeleted\<close>.\<close>

definition Remove_leaf :: "'d store \<Rightarrow> addr \<Rightarrow> error + 'd store" where
  "Remove_leaf cs l =
     (case previous (cs ! l) of
        None \<Rightarrow> Inl Panic
      | Some p \<Rightarrow>
          let cs1 = SetNext cs p (next (cs ! l))
          in (case next (cs1 ! l) of
                None \<Rightarrow> Inl Panic
              | Some n \<Rightarrow>
                  let cs2 = SetPrevious cs1 n (previous (cs1 ! l))
                  in Inr (SetPrevious cs2 l None)))"

section \<open>The search context\<close>

datatype searchResult = Extension | Greater | Less | Matched | Prefix | Unmatched

definition childNotFound :: int where
  "childNotFound = -1"

text \<open>
  \<^verbatim>\<open>digitizer\<close> of the context is always the digitizer of the trie that acquired it and is
  passed to the functions below; \<^verbatim>\<open>numMatches\<close> is never read.
\<close>

record searchContext =
  pointer :: "path option"
  branchPosition :: int

text \<open>A context from the pool: released contexts are reset, new ones are zero.\<close>

definition acquireSearchContext :: searchContext where
  "acquireSearchContext = \<lparr> pointer = None, branchPosition = 0 \<rparr>"

definition ascend :: "searchContext \<Rightarrow> error + searchContext" where
  "ascend s =
     (case pointer s of
        None \<Rightarrow> Inl Panic
      | Some p \<Rightarrow>
          Inr (s\<lparr> branchPosition := branchPosition s - 1,
                 pointer := (if p = [] then None else Some (butlast p)) \<rparr>))"

definition atLeaf :: "node option \<Rightarrow> searchContext \<Rightarrow> bool" where
  "atLeaf r s = (case deref r (pointer s) of Some (Leaf a) \<Rightarrow> True | _ \<Rightarrow> False)"

definition atRoot :: "searchContext \<Rightarrow> error + bool" where
  "atRoot s = (case pointer s of None \<Rightarrow> Inl Panic | Some p \<Rightarrow> Inr (p = []))"

definition descendToIndex ::
    "node option \<Rightarrow> searchContext \<Rightarrow> int \<Rightarrow> error + (int \<times> searchContext)" where
  "descendToIndex r s index =
     (case deref r (pointer s) of
        None \<Rightarrow> Inl Panic
      | Some n \<Rightarrow>
          (case ChildAt n index of
             Inl e \<Rightarrow> if e = Panic then Inl Panic else Inr (childNotFound, s)
           | Inr None \<Rightarrow> Inr (childNotFound, s)
           | Inr (Some c) \<Rightarrow>
               Inr (index, s\<lparr> branchPosition := branchPosition s + 1,
                              pointer := Some (the (pointer s) @ [index]) \<rparr>)))"

definition descendTo ::
    "digitizer \<Rightarrow> node option \<Rightarrow> searchContext \<Rightarrow> string \<Rightarrow> error + (int \<times> searchContext)" where
  "descendTo d r s v =
     (case DigitOf d v (branchPosition s) of
        Inl e \<Rightarrow> Inl e
      | Inr index \<Rightarrow> descendToIndex r s index)"

text \<open>Termination of the descending loops: each descent moves to a proper subtree.\<close>

definition subSize :: "node option \<Rightarrow> searchContext \<Rightarrow> nat" where
  "subSize r s = (case deref r (pointer s) of None \<Rightarrow> 0 | Some n \<Rightarrow> size n)"

lemma lookup_append:
  "lookup n (p @ q) = (case lookup n p of None \<Rightarrow> None | Some m \<Rightarrow> lookup m q)"
  by (induction p arbitrary: n) (auto split: option.splits)

lemma size_child:
  "i < length cs \<Longrightarrow> cs ! i = Some c \<Longrightarrow> size c < size (Node cs r k)"
proof (induction cs arbitrary: i)
  case Nil
  then show ?case by simp
next
  case (Cons x xs)
  then show ?case by (cases i) force+
qed

lemma size_slot:
  "i < length (slots n) \<Longrightarrow> slots n ! i = Some c \<Longrightarrow> size c < size n"
  by (cases n) (auto dest: size_child)

lemma descendToIndex_subSize:
  assumes "descendToIndex r s i = Inr (m, s')" and "m \<noteq> childNotFound"
  shows "subSize r s' < subSize r s"
proof -
  from assms obtain n c p where n: "deref r (pointer s) = Some n"
    and c: "ChildAt n i = Inr (Some c)"
    and s': "s' = s\<lparr> branchPosition := branchPosition s + 1, pointer := Some (p @ [i]) \<rparr>"
    and p: "pointer s = Some p"
    by (auto simp: descendToIndex_def deref_def split: option.splits sum.splits if_splits)
  from c have i: "0 \<le> i" "nat i < length (slots n)" and ci: "slots n ! nat i = Some c"
    by (auto simp: ChildAt_def checkBounds_def split: option.splits if_splits)
  from n p obtain rn where rn: "r = Some rn" "lookup rn p = Some n"
    by (auto simp: deref_def split: option.splits)
  have "deref r (pointer s') = Some c"
    using rn i ci by (simp add: s' deref_def lookup_append)
  moreover have "size c < size n" using i(2) ci by (rule size_slot)
  ultimately show ?thesis using n by (simp add: subSize_def)
qed


subsection \<open>Navigation\<close>

text \<open>
  \<^verbatim>\<open>moveToMaxDescendant\<close>.  The inner loop counts \<open>index\<close> down until a child is found.
  At an internal node without children it never finds one: every negative index is out
  of bounds for \<^verbatim>\<open>ChildAt\<close>, so the loop keeps counting down (after 2^64 steps the
  wrapped index reaches the capacity, where \<^verbatim>\<open>ChildAt\<close> panics).  That is \<open>NoReturn\<close>.
\<close>

function maxChild :: "node option \<Rightarrow> searchContext \<Rightarrow> int \<Rightarrow> error + searchContext" where
  "maxChild r s index =
     (case descendToIndex r s index of
        Inl e \<Rightarrow> Inl e
      | Inr (m, s') \<Rightarrow>
          if m \<noteq> childNotFound then Inr s'
          else if index < 0 then Inl NoReturn
          else maxChild r s' (index - 1))"
  by pat_completeness auto
termination
  by (relation "measure (\<lambda>(r, s, index). nat (index + 1))") auto

declare maxChild.simps [simp del]

lemma descendToIndex_notFound:
  "descendToIndex r s i = Inr (m, s1) \<Longrightarrow> m = childNotFound \<Longrightarrow> s1 = s"
  by (auto simp: descendToIndex_def ChildAt_def checkBounds_def childNotFound_def
           split: option.splits sum.splits if_splits)

lemma maxChild_subSize: "maxChild r s i = Inr s' \<Longrightarrow> subSize r s' < subSize r s"
proof (induction r s i rule: maxChild.induct)
  case (1 r s index)
  show ?case
  proof (cases "descendToIndex r s index")
    case (Inl e)
    with "1.prems" show ?thesis by (simp add: maxChild.simps[of r s index])
  next
    case (Inr ms)
    obtain m s1 where ms: "ms = (m, s1)" by (cases ms)
    show ?thesis
    proof (cases "m \<noteq> childNotFound")
      case True
      with Inr ms "1.prems" have "s' = s1" by (simp add: maxChild.simps[of r s index])
      with Inr ms True show ?thesis by (auto dest: descendToIndex_subSize)
    next
      case False
      with Inr ms have s1: "s1 = s"
        by (auto dest: descendToIndex_notFound)
      from False Inr ms "1.prems" have neg: "\<not> index < 0" and rec: "maxChild r s1 (index - 1) = Inr s'"
        by (auto simp: maxChild.simps[of r s index] split: if_splits)
      from "1.IH"[OF Inr ms[symmetric] _ neg rec] False show ?thesis by (simp add: s1)
    qed
  qed
qed

function moveToMaxDescendant ::
    "digitizer \<Rightarrow> node option \<Rightarrow> searchContext \<Rightarrow> error + searchContext" where
  "moveToMaxDescendant d r s =
     (if \<not> atLeaf r s then
        (case maxChild r s (Base d - 1) of
           Inl e \<Rightarrow> Inl e
         | Inr s' \<Rightarrow> moveToMaxDescendant d r s')
      else Inr s)"
  by pat_completeness auto
termination
  by (relation "measure (\<lambda>(d, r, s). subSize r s)") (auto dest: maxChild_subSize)

declare moveToMaxDescendant.simps [simp del]

text \<open>
  \<^verbatim>\<open>retraceToLastLeftFork\<close>.  \<open>leftFork\<close> is its inner loop over the slots below the digit
  of the value, highest first; it reports whether it descended.
\<close>

function leftFork :: "node option \<Rightarrow> searchContext \<Rightarrow> int \<Rightarrow> error + (bool \<times> searchContext)" where
  "leftFork r s i =
     (if i \<ge> 0 then
        (case descendToIndex r s i of
           Inl e \<Rightarrow> Inl e
         | Inr (m, s') \<Rightarrow> if m \<noteq> childNotFound then Inr (True, s') else leftFork r s' (i - 1))
      else Inr (False, s))"
  by pat_completeness auto
termination
  by (relation "measure (\<lambda>(r, s, i). nat (i + 1))") auto

declare leftFork.simps [simp del]

definition pathLen :: "searchContext \<Rightarrow> nat" where
  "pathLen s = (case pointer s of None \<Rightarrow> 0 | Some p \<Rightarrow> Suc (length p))"

lemma leftFork_False: "leftFork r s i = Inr (False, s') \<Longrightarrow> s' = s"
proof (induction r s i rule: leftFork.induct)
  case (1 r s i)
  show ?case
  proof (cases "i \<ge> 0")
    case False
    with "1.prems" show ?thesis by (simp add: leftFork.simps[of r s i])
  next
    case True
    from True "1.prems" obtain m s1 where d: "descendToIndex r s i = Inr (m, s1)"
      by (auto simp: leftFork.simps[of r s i] split: sum.splits)
    with True "1.prems" have m: "\<not> m \<noteq> childNotFound" and rec: "leftFork r s1 (i - 1) = Inr (False, s')"
      by (auto simp: leftFork.simps[of r s i] split: if_splits)
    from d m have "s1 = s"
      by (auto dest: descendToIndex_notFound)
    with "1.IH"[OF True d refl m rec] show ?thesis by simp
  qed
qed

function retraceToLastLeftFork ::
    "digitizer \<Rightarrow> node option \<Rightarrow> searchContext \<Rightarrow> string \<Rightarrow> error + searchContext" where
  "retraceToLastLeftFork d r s v =
     (case (if \<not> atLeaf r s then
              (case DigitOf d v (branchPosition s) of
                 Inl e \<Rightarrow> Inl e
               | Inr index \<Rightarrow> leftFork r s (index - 1))
            else Inr (False, s)) of
        Inl e \<Rightarrow> Inl e
      | Inr (found, s') \<Rightarrow>
          if found then Inr s'
          else (case atRoot s' of
                  Inl e \<Rightarrow> Inl e
                | Inr isTop \<Rightarrow>
                    if isTop then Inr s'
                    else (case ascend s' of
                            Inl e \<Rightarrow> Inl e
                          | Inr s'' \<Rightarrow> retraceToLastLeftFork d r s'' v)))"
  by pat_completeness auto
termination
proof (relation "measure (\<lambda>(d, r, s, v). pathLen s)")
  show "wf (measure (\<lambda>(d, r, s, v). pathLen s))" by simp
next
  fix d :: digitizer and r s v x2 found s' and top :: bool and s''
  assume a: "(if \<not> atLeaf r s
        then case DigitOf d v (branchPosition s) of Inl e \<Rightarrow> Inl e
             | Inr index \<Rightarrow> leftFork r s (index - 1)
        else Inr (False, s)) = Inr x2"
    and x2: "(found, s') = x2" and nf: "\<not> found"
    and top: "atRoot s' = Inr top" "\<not> top" and asc: "ascend s' = Inr s''"
  from a x2 nf have "s' = s"
    by (auto split: if_splits sum.splits dest: leftFork_False)
  moreover from top asc have "pathLen s'' < pathLen s'"
    by (auto simp: atRoot_def ascend_def pathLen_def split: option.splits)
  ultimately show "((d, r, s'', v), (d, r, s, v)) \<in> measure (\<lambda>(d, r, s, v). pathLen s)"
    by simp
qed

declare retraceToLastLeftFork.simps [simp del]

text \<open>
  \<^verbatim>\<open>reflect.DeepEqual\<close> of the Go library, on references to two nodes of one tree that
  hang below sibling slots.  It compares the objects field by field and follows pointers;
  a pair of pointers it is already comparing counts as equal.  Two internal nodes: the
  root flags and the child counts are compared, the slots pairwise (both \<^verbatim>\<open>nil\<close>, or both
  set and deeply equal); the parent pointers lead to the common parent or back to the pair
  under comparison, and the entry of an internal node is \<^verbatim>\<open>nil\<close>.  An internal node and a
  leaf are of different types.  Two leaves that are the same object are equal; two
  different leaf objects whose sentinel flags differ, of which one has no entry, or whose
  entries have different keys, are not.  For two different leaf objects that agree in
  these fields the answer depends on their links and on the parent pointers kept in the
  leaf objects, which the store does not hold: there the model gives no answer.
\<close>

datatype deep = DeepTrue | DeepFalse | DeepUnknown

definition deepAnd :: "deep \<Rightarrow> deep \<Rightarrow> deep" where
  "deepAnd x y =
     (if x = DeepFalse \<or> y = DeepFalse then DeepFalse
      else if x = DeepUnknown \<or> y = DeepUnknown then DeepUnknown
      else DeepTrue)"

definition deepEqualLeaf :: "'d store \<Rightarrow> addr \<Rightarrow> addr \<Rightarrow> deep" where
  "deepEqualLeaf cs a b =
     (if a = b then DeepTrue
      else if isHead (cs ! a) \<noteq> isHead (cs ! b) \<or> isTail (cs ! a) \<noteq> isTail (cs ! b) then DeepFalse
      else (case (lvalue (cs ! a), lvalue (cs ! b)) of
              (None, None) \<Rightarrow> DeepUnknown
            | (Some e, Some e') \<Rightarrow> if Value e \<noteq> Value e' then DeepFalse else DeepUnknown
            | _ \<Rightarrow> DeepFalse))"

function deepEqualNode :: "'d store \<Rightarrow> node \<Rightarrow> node \<Rightarrow> deep"
  and deepEqualSlots :: "'d store \<Rightarrow> node option list \<Rightarrow> node option list \<Rightarrow> deep" where
  "deepEqualNode cs (Leaf a) (Leaf b) = deepEqualLeaf cs a b"
| "deepEqualNode cs (Leaf a) (Node ch r k) = DeepFalse"
| "deepEqualNode cs (Node ch r k) (Leaf b) = DeepFalse"
| "deepEqualNode cs (Node ch r k) (Node ch' r' k') =
     (if r \<noteq> r' \<or> k \<noteq> k' then DeepFalse else deepEqualSlots cs ch ch')"
| "deepEqualSlots cs [] [] = DeepTrue"
| "deepEqualSlots cs [] (y # ys) = DeepFalse"
| "deepEqualSlots cs (x # xs) [] = DeepFalse"
| "deepEqualSlots cs (x # xs) (y # ys) =
     deepAnd
       (case x of
          None \<Rightarrow> (case y of None \<Rightarrow> DeepTrue | Some m \<Rightarrow> DeepFalse)
        | Some n \<Rightarrow> (case y of None \<Rightarrow> DeepFalse | Some m \<Rightarrow> deepEqualNode cs n m))
       (deepEqualSlots cs xs ys)"
  by pat_completeness auto
termination
  by (relation "measure (\<lambda>x. case x of
          Inl (cs, n, m) \<Rightarrow> 2 * size n
        | Inr (cs, xs, ys) \<Rightarrow> 2 * size_list (size_option size) xs + 1)")
     auto





section \<open>The trie\<close>

text \<open>
  \<^verbatim>\<open>cells\<close> is the store of the leaf objects (sentinels included), addressed by
  allocation order; addresses are only ever produced by allocation.  \<open>size'\<close> is the
  field \<^verbatim>\<open>size\<close>.
\<close>

record 'd trie =
  digitizer :: digitizer
  head :: addr
  root :: "node option"
  size' :: int
  tail :: addr
  cells :: "'d store"

definition mkTrie :: "digitizer \<Rightarrow> 'd trie" where
  "mkTrie d =
     \<lparr> digitizer = d, head = 0, root = None, size' = 0, tail = 1,
       cells = SetNext (SetNext [newLeaf\<lparr>isHead := True\<rparr>, newLeaf\<lparr>isTail := True\<rparr>] 0 (Some 1))
                 1 (Some 0) \<rparr>"

text \<open>\<^verbatim>\<open>New(options...)\<close>; the only option is the digitizer.\<close>

definition NewWith :: "digitizer option \<Rightarrow> error + 'd trie" where
  "NewWith opt =
     (case opt of
        None \<Rightarrow> Inr (mkTrie NewASCIIDigitizer)
      | Some d \<Rightarrow> if Base d \<le> 0 then Inl ErrInvalidConfiguration else Inr (mkTrie d))"

definition New :: "'d trie" where
  "New = mkTrie NewASCIIDigitizer"

definition Len :: "'d trie \<Rightarrow> int" where
  "Len t = size' t"

definition IsEmpty :: "'d trie \<Rightarrow> bool" where
  "IsEmpty t = (Len t = 0)"

definition prepareSearch :: "'d trie \<Rightarrow> searchContext \<Rightarrow> searchContext" where
  "prepareSearch t s = s\<lparr> branchPosition := 0, pointer := (case root t of None \<Rightarrow> None | Some n \<Rightarrow> Some []) \<rparr>"

subsection \<open>find\<close>

function findLoop ::
    "digitizer \<Rightarrow> node option \<Rightarrow> string \<Rightarrow> int \<Rightarrow> searchContext
       \<Rightarrow> error + (searchResult \<times> searchContext)" where
  "findLoop d r v numDigitsInElement s =
     (if pointer s \<noteq> None \<and> \<not> atLeaf r s then
        (if branchPosition s = numDigitsInElement then Inr (Prefix, s)
         else (case descendTo d r s v of
                 Inl e \<Rightarrow> Inl e
               | Inr (m, s') \<Rightarrow>
                   if m = childNotFound then Inr (Unmatched, s')
                   else findLoop d r v numDigitsInElement s'))
      else if pointer s \<noteq> None \<and> branchPosition s \<noteq> numDigitsInElement then Inr (Extension, s)
      else Inr (Matched, s))"
  by pat_completeness auto
termination
  by (relation "measure (\<lambda>(d, r, v, n, s). subSize r s)")
     (auto simp: descendTo_def split: sum.splits dest: descendToIndex_subSize)

declare findLoop.simps [simp del]

definition find ::
    "'d trie \<Rightarrow> searchContext \<Rightarrow> string \<Rightarrow> error + (searchResult \<times> searchContext)" where
  "find t s value0 =
     (let v = TrimSpace value0 in
      if v = [] then Inl ErrNotFound
      else if IsEmpty t then Inr (Unmatched, s)
      else findLoop (digitizer t) (root t) v (NumDigitsOf (digitizer t) v) (prepareSearch t s))"

subsection \<open>addNode\<close>

text \<open>\<^verbatim>\<open>ctx.pointer.AddChild(index, child)\<close> on the tree under \<open>r\<close>.\<close>

definition addChildAt :: "node option \<Rightarrow> searchContext \<Rightarrow> int \<Rightarrow> node \<Rightarrow> error + node option" where
  "addChildAt r s index child =
     (case deref r (pointer s) of
        None \<Rightarrow> Inl Panic
      | Some n \<Rightarrow>
          (case AddChild n index child of
             Inl e \<Rightarrow> Inl e
           | Inr n' \<Rightarrow> Inr (Some (replaceAt (the r) (the (pointer s)) n'))))"

text \<open>
  The loop of \<^verbatim>\<open>addNode\<close> that extends the path with new internal nodes.  Every pass
  changes the tree, so the tree is part of the result also when the loop fails.
\<close>

function addNodeLoop ::
    "digitizer \<Rightarrow> node option \<Rightarrow> searchContext \<Rightarrow> string
       \<Rightarrow> (error + searchContext) \<times> node option" where
  "addNodeLoop d r s v =
     (if branchPosition s < NumDigitsOf d v - 1 then
        (case DigitOf d v (branchPosition s) of
           Inl e \<Rightarrow> (Inl e, r)
         | Inr index \<Rightarrow>
             (case addChildAt r s index (newNode (Base d)) of
                Inl e \<Rightarrow> (Inl e, r)
              | Inr r' \<Rightarrow>
                  addNodeLoop d r'
                    (s\<lparr> pointer := Some (the (pointer s) @ [index]),
                        branchPosition := branchPosition s + 1 \<rparr>) v))
      else (Inr s, r))"
  by pat_completeness auto
termination
  by (relation "measure (\<lambda>(d, r, s, v). nat (NumDigitsOf d v - 1 - branchPosition s))") auto

declare addNodeLoop.simps [simp del]

text \<open>\<^verbatim>\<open>addNode(ctx, node)\<close> for the leaf at address \<open>a\<close>.\<close>

definition addNode ::
    "'d trie \<Rightarrow> searchContext \<Rightarrow> addr \<Rightarrow> (error + searchContext) \<times> 'd trie" where
  "addNode t s a =
     (case (if pointer s = None then
              (case newRootNode (Base (digitizer t)) of
                 Inl e \<Rightarrow> Inl e
               | Inr n \<Rightarrow> Inr (t\<lparr>root := Some n\<rparr>, s\<lparr>pointer := Some []\<rparr>))
            else Inr (t, s)) of
        Inl e \<Rightarrow> (Inl e, t)
      | Inr (t1, s1) \<Rightarrow>
          (case lvalue (cells t1 ! a) of
             None \<Rightarrow> (Inl Panic, t1)
           | Some entry \<Rightarrow>
               (case addNodeLoop (digitizer t1) (root t1) s1 (Value entry) of
                  (Inl e, r2) \<Rightarrow> (Inl e, t1\<lparr>root := r2\<rparr>)
                | (Inr s2, r2) \<Rightarrow>
                    (case DigitOf (digitizer t1) (Value entry) (branchPosition s2) of
                       Inl e \<Rightarrow> (Inl e, t1\<lparr>root := r2\<rparr>)
                     | Inr index \<Rightarrow>
                         (case addChildAt r2 s2 index (Leaf a) of
                            Inl e \<Rightarrow> (Inl e, t1\<lparr>root := r2\<rparr>)
                          | Inr r3 \<Rightarrow>
                              (Inr (s2\<lparr> pointer := Some (the (pointer s2) @ [index]),
                                        branchPosition := branchPosition s2 + 1 \<rparr>),
                               t1\<lparr>root := r3\<rparr>))))))"

subsection \<open>moveToPredecessor\<close>

definition moveToPredecessor ::
    "'d trie \<Rightarrow> searchContext \<Rightarrow> string \<Rightarrow> searchResult \<Rightarrow> error + (bool \<times> searchContext)" where
  "moveToPredecessor t s v sr =
     (if atLeaf (root t) s \<and> (sr = Greater \<or> sr = Extension) then Inr (True, s)
      else
        (case (if sr \<noteq> Greater then retraceToLastLeftFork (digitizer t) (root t) s v
               else Inr s) of
           Inl e \<Rightarrow> Inl e
         | Inr s1 \<Rightarrow>
             (case atRoot s1 of
                Inl e \<Rightarrow> Inl e
              | Inr isTop \<Rightarrow>
                  if isTop then Inr (False, s1)
                  else if \<not> atLeaf (root t) s1 then
                    (case moveToMaxDescendant (digitizer t) (root t) s1 of
                       Inl e \<Rightarrow> Inl e
                     | Inr s2 \<Rightarrow> Inr (True, s2))
                  else Inr (True, s1))))"

text \<open>\<^verbatim>\<open>ctx.pointer.(Leaf)\<close>: the type assertion panics unless the pointer is at a leaf.\<close>

definition asLeaf :: "node option \<Rightarrow> searchContext \<Rightarrow> error + addr" where
  "asLeaf r s = (case deref r (pointer s) of Some (Leaf a) \<Rightarrow> Inr a | _ \<Rightarrow> Inl Panic)"

subsection \<open>insert\<close>

text \<open>
  The new leaf object is allocated at the end of the store before \<^verbatim>\<open>addNode\<close> runs, as
  in the source (\<^verbatim>\<open>newLeaf\<close>, \<^verbatim>\<open>SetValue\<close>).  A \<^verbatim>\<open>nil\<close> entry panics at \<^verbatim>\<open>entry.Value()\<close>.
\<close>

definition insert :: "'d trie \<Rightarrow> 'd entry option \<Rightarrow> (error + node) \<times> 'd trie" where
  "insert t entry =
     (case entry of
        None \<Rightarrow> (Inl Panic, t)
      | Some e \<Rightarrow>
          (case find t acquireSearchContext (Value e) of
             Inl err \<Rightarrow> (Inl err, t)
           | Inr (searchResult, ctx) \<Rightarrow>
               if searchResult = Matched \<or>
                  (\<not> IsPrefixFree (digitizer t) \<and> (searchResult = Prefix \<or> searchResult = Extension))
               then (Inl ErrPrefixViolation, t)
               else
                 (let a = length (cells t);
                      t1 = t\<lparr>cells := SetValue (cells t @ [newLeaf]) a (Some e)\<rparr>
                  in case addNode t1 ctx a of
                       (Inl err, t2) \<Rightarrow> (Inl err, t2)
                     | (Inr ctx1, t2) \<Rightarrow>
                         (case moveToPredecessor t2 ctx1 (Value e) Matched of
                            Inl err \<Rightarrow> (Inl err, t2)
                          | Inr (m, ctx2) \<Rightarrow>
                              (case (if m then asLeaf (root t2) ctx2 else Inr (head t2)) of
                                 Inl err \<Rightarrow> (Inl err, t2)
                               | Inr pivot \<Rightarrow>
                                   (case AddAfter (cells t2) a pivot of
                                      Inl err \<Rightarrow> (Inl err, t2)
                                    | Inr cs \<Rightarrow>
                                        (Inr (Leaf a), t2\<lparr>cells := cs, size' := size' t2 + 1\<rparr>)))))))"

subsection \<open>remove\<close>

text \<open>
  The pruning loop of \<^verbatim>\<open>remove\<close>; \<open>node\<close> is the position of the node under inspection.
  A node that is not flagged as root but has no parent panics at \<^verbatim>\<open>parent.RemoveChildAt\<close>.
\<close>

function removeLoop ::
    "digitizer \<Rightarrow> node option \<Rightarrow> string \<Rightarrow> path \<Rightarrow> int \<Rightarrow> error option \<times> node option" where
  "removeLoop d r v node level =
     (case deref r (Some node) of
        None \<Rightarrow> (Some Panic, r)
      | Some n \<Rightarrow>
          if \<not> IsRoot n \<and> \<not> HasChildren n then
            (case DigitOf d v (level - 1) of
               Inl e \<Rightarrow> (Some e, r)
             | Inr index \<Rightarrow>
                 if node = [] then (Some Panic, r)
                 else (case deref r (Some (butlast node)) of
                         None \<Rightarrow> (Some Panic, r)
                       | Some parent \<Rightarrow>
                           (case RemoveChildAt parent index of
                              Inl e \<Rightarrow> (Some e, r)
                            | Inr (b, parent') \<Rightarrow>
                                removeLoop d (Some (replaceAt (the r) (butlast node) parent')) v
                                  (butlast node) (level - 1))))
          else (None, r))"
  by pat_completeness auto
termination
  by (relation "measure (\<lambda>(d, r, v, node, level). length node)") auto

declare removeLoop.simps [simp del]

text \<open>
  \<^verbatim>\<open>remove(node)\<close>.  Only a leaf carries an entry: at \<^verbatim>\<open>nil\<close> or at an internal node
  \<^verbatim>\<open>node.Value()\<close> or \<^verbatim>\<open>entry.Value()\<close> panics.
\<close>

definition remove :: "'d trie \<Rightarrow> path option \<Rightarrow> error option \<times> 'd trie" where
  "remove t node =
     (case deref (root t) node of
        Some (Leaf a) \<Rightarrow>
          (case Remove_leaf (cells t) a of
             Inl e \<Rightarrow> (Some e, t)
           | Inr cs \<Rightarrow>
               (let t1 = t\<lparr>cells := cs\<rparr> in
                case lvalue (cs ! a) of
                  None \<Rightarrow> (Some Panic, t1)
                | Some entry \<Rightarrow>
                    (case removeLoop (digitizer t1) (root t1) (Value entry) (the node)
                            (NumDigitsOf (digitizer t1) (Value entry)) of
                       (Some e, r') \<Rightarrow> (Some e, t1\<lparr>root := r'\<rparr>)
                     | (None, r') \<Rightarrow> (None, t1\<lparr>root := r', size' := size' t1 - 1\<rparr>))))
      | _ \<Rightarrow> (Some Panic, t))"


section \<open>Public operations\<close>

definition AddEntry :: "'d trie \<Rightarrow> 'd entry option \<Rightarrow> error option \<times> 'd trie" where
  "AddEntry t entry =
     (case insert t entry of (Inl err, t') \<Rightarrow> (Some err, t') | (Inr n, t') \<Rightarrow> (None, t'))"

text \<open>\<^verbatim>\<open>Add(values...)\<close>: blank values are skipped, the first error ends the loop.\<close>

fun Add :: "'d trie \<Rightarrow> string list \<Rightarrow> error option \<times> 'd trie" where
  "Add t [] = (None, t)"
| "Add t (v0 # values) =
     (let v = TrimSpace v0 in
      if v \<noteq> [] then
        (case AddEntry t (Some (Entry v None)) of
           (Some err, t') \<Rightarrow> (Some err, t')
         | (None, t') \<Rightarrow> Add t' values)
      else Add t values)"

text \<open>
  \<^verbatim>\<open>RemoveEntry\<close>.  An error that \<^verbatim>\<open>find\<close> returns is answered with \<^verbatim>\<open>(false, nil)\<close>; a panic
  inside \<^verbatim>\<open>find\<close> is not an error value and ends the call.
\<close>

definition RemoveEntry :: "'d trie \<Rightarrow> 'd entry option \<Rightarrow> (error + bool) \<times> 'd trie" where
  "RemoveEntry t entry =
     (if IsEmpty t then (Inl ErrCollectionEmpty, t)
      else (case entry of
              None \<Rightarrow> (Inl ErrValueRequired, t)
            | Some e \<Rightarrow>
                (case find t acquireSearchContext (Value e) of
                   Inl err \<Rightarrow> if crashed err then (Inl err, t) else (Inr False, t)
                 | Inr (r, ctx) \<Rightarrow>
                     if r \<noteq> Matched then (Inr False, t)
                     else (case remove t (pointer ctx) of
                             (Some err, t') \<Rightarrow> (Inl err, t')
                           | (None, t') \<Rightarrow> (Inr True, t')))))"

definition Remove :: "'d trie \<Rightarrow> string \<Rightarrow> (error + bool) \<times> 'd trie" where
  "Remove t v = RemoveEntry t (Some (Entry v None))"

text \<open>
  \<^verbatim>\<open>Contains\<close>.  An error that \<^verbatim>\<open>find\<close> returns is answered with \<^verbatim>\<open>false\<close>; a panic inside
  \<^verbatim>\<open>find\<close> ends the call (\<open>Inl\<close>).
\<close>

definition Contains :: "'d trie \<Rightarrow> string \<Rightarrow> error + bool" where
  "Contains t value0 =
     (if IsEmpty t then Inr False
      else (let v = TrimSpace value0 in
            if v = [] then Inr False
            else (case find t acquireSearchContext v of
                    Inl err \<Rightarrow> if crashed err then Inl err else Inr False
                  | Inr (r, ctx) \<Rightarrow> Inr (r = Matched))))"

text \<open>The key of the entry of a leaf object, \<^verbatim>\<open>l.Value().Value()\<close>; a \<^verbatim>\<open>nil\<close> leaf or entry panics.\<close>

definition keyOf :: "'d store \<Rightarrow> addr option \<Rightarrow> error + string" where
  "keyOf cs lo =
     (case lo of
        None \<Rightarrow> Inl Panic
      | Some a \<Rightarrow> (case lvalue (cs ! a) of None \<Rightarrow> Inl Panic | Some e \<Rightarrow> Inr (Value e)))"

text \<open>\<^verbatim>\<open>Min\<close> and \<^verbatim>\<open>Max\<close>; the string beside their error is empty and is left out.\<close>

definition Min :: "'d trie \<Rightarrow> error + string" where
  "Min t = (if IsEmpty t then Inl ErrCollectionEmpty else keyOf (cells t) (next (cells t ! head t)))"

definition Max :: "'d trie \<Rightarrow> error + string" where
  "Max t = (if IsEmpty t then Inl ErrCollectionEmpty else keyOf (cells t) (previous (cells t ! tail t)))"

text \<open>
  \<^verbatim>\<open>Predecessor\<close> and \<^verbatim>\<open>Successor\<close> return a string and an error.  \<open>Inr (s, None)\<close> is the
  result \<open>s\<close> with a \<^verbatim>\<open>nil\<close> error, \<open>Inr (s, Some e)\<close> the error \<open>e\<close> with the string returned
  beside it: the argument as passed on an empty trie, the trimmed argument after that,
  the empty string when \<^verbatim>\<open>moveToPredecessor\<close> fails.  \<open>Inl\<close> is a call that panics or does
  not return.
\<close>

definition returned :: "string \<Rightarrow> error \<Rightarrow> error + (string \<times> error option)" where
  "returned s e = (if crashed e then Inl e else Inr (s, Some e))"

definition Predecessor :: "'d trie \<Rightarrow> string \<Rightarrow> error + (string \<times> error option)" where
  "Predecessor t value0 =
     (if IsEmpty t then Inr (value0, Some ErrCollectionEmpty)
      else (let v = TrimSpace value0 in
            if v = [] then Inr (v, Some ErrValueRequired)
            else (case find t acquireSearchContext v of
                    Inl err \<Rightarrow> returned v err
                  | Inr (r, ctx) \<Rightarrow>
                      (case moveToPredecessor t ctx v r of
                         Inl err \<Rightarrow> returned [] err
                       | Inr (m, ctx1) \<Rightarrow>
                           if m then
                             (case asLeaf (root t) ctx1 of
                                Inl err \<Rightarrow> Inl err
                              | Inr a \<Rightarrow>
                                  (case keyOf (cells t) (Some a) of
                                     Inl err \<Rightarrow> Inl err
                                   | Inr k \<Rightarrow> Inr (k, None)))
                           else Inr (v, Some ErrNotFound)))))"

text \<open>The end of \<^verbatim>\<open>Successor\<close>, from \<^verbatim>\<open>if !successor.IsTail()\<close> on.\<close>

definition successorResult ::
    "'d trie \<Rightarrow> string \<Rightarrow> addr option \<Rightarrow> error + (string \<times> error option)" where
  "successorResult t v successor =
     (case successor of
        None \<Rightarrow> Inl Panic
      | Some b \<Rightarrow>
          if \<not> isTail (cells t ! b) then
            (case keyOf (cells t) (Some b) of
               Inl err \<Rightarrow> Inl err
             | Inr k \<Rightarrow> Inr (k, None))
          else Inr (v, Some ErrNotFound))"

definition Successor :: "'d trie \<Rightarrow> string \<Rightarrow> error + (string \<times> error option)" where
  "Successor t value0 =
     (if IsEmpty t then Inr (value0, Some ErrCollectionEmpty)
      else (let v = TrimSpace value0 in
            if v = [] then Inr (v, Some ErrValueRequired)
            else (case find t acquireSearchContext v of
                    Inl err \<Rightarrow> returned v err
                  | Inr (r, ctx) \<Rightarrow>
                      if r = Matched then
                        (case asLeaf (root t) ctx of
                           Inl err \<Rightarrow> Inl err
                         | Inr a \<Rightarrow> successorResult t v (next (cells t ! a)))
                      else
                        (case find t ctx v of
                           Inl err \<Rightarrow> returned v err
                         | Inr (r1, ctx1) \<Rightarrow>
                             (case moveToPredecessor t ctx1 v r1 of
                                Inl err \<Rightarrow> returned [] err
                              | Inr (m, ctx2) \<Rightarrow>
                                  if m then
                                    (case asLeaf (root t) ctx2 of
                                       Inl err \<Rightarrow> Inl err
                                     | Inr a \<Rightarrow> successorResult t v (next (cells t ! a)))
                                  else successorResult t v (Some (tail t)))))))"


subsection \<open>Iterator (iterator.go) and the listing operations\<close>

text \<open>
  \<^verbatim>\<open>skipRemovedElements\<close> relinks tombstoned leaves while it walks, so the store is part
  of its result.  Its argument may be \<^verbatim>\<open>nil\<close>, which panics at \<^verbatim>\<open>IsHead()\<close>.
\<close>

partial_function (option) skipRemovedElements ::
    "'d store \<Rightarrow> addr option \<Rightarrow> (error + (addr option \<times> 'd store)) option" where
  "skipRemovedElements cs leafNode =
     (case leafNode of
        None \<Rightarrow> Some (Inl Panic)
      | Some a \<Rightarrow>
          if isHead (cs ! a) \<or> isTail (cs ! a) \<or> \<not> IsDeleted cs a then Some (Inr (Some a, cs))
          else Option.bind (skipRemovedElements cs (next (cs ! a)))
                 (\<lambda>res. case res of
                    Inl e \<Rightarrow> Some (Inl e)
                  | Inr (x, cs') \<Rightarrow>
                      (let cs2 = SetNext cs' a x in Some (Inr (next (cs2 ! a), cs2)))))"

text \<open>\<^verbatim>\<open>advance\<close>: the new position of the iterator and whether it is a live position.\<close>

definition advance :: "'d store \<Rightarrow> addr \<Rightarrow> (error + (bool \<times> addr \<times> 'd store)) option" where
  "advance cs p =
     (if isTail (cs ! p) then Some (Inr (False, p, cs))
      else
        (case (if \<not> isHead (cs ! p) \<and> IsDeleted cs p then skipRemovedElements cs (Some p)
               else Some (Inr (next (cs ! p), cs))) of
           None \<Rightarrow> None
         | Some (Inl e) \<Rightarrow> Some (Inl e)
         | Some (Inr (None, cs')) \<Rightarrow> Some (Inl Panic)
         | Some (Inr (Some q, cs')) \<Rightarrow> Some (Inr (\<not> isTail (cs' ! q), q, cs'))))"

definition inCollection :: "'d store \<Rightarrow> addr \<Rightarrow> bool" where
  "inCollection cs p = (if isHead (cs ! p) \<or> isTail (cs ! p) then False else \<not> IsDeleted cs p)"

definition get :: "'d store \<Rightarrow> addr \<Rightarrow> error + 'd entry option" where
  "get cs p = (if \<not> inCollection cs p then Inl ErrNotFound else Inr (lvalue (cs ! p)))"

text \<open>The loop of \<^verbatim>\<open>Entries\<close>: \<open>p\<close> is the iterator position, \<open>entries\<close> the slice built so far.\<close>

partial_function (option) entriesLoop ::
    "'d store \<Rightarrow> addr \<Rightarrow> 'd entry option list
       \<Rightarrow> ((error + 'd entry option list) \<times> 'd store) option" where
  "entriesLoop cs p entries =
     Option.bind (advance cs p)
       (\<lambda>res. case res of
          Inl e \<Rightarrow> Some (Inl e, cs)
        | Inr (live, q, cs') \<Rightarrow>
            if live then
              (case get cs' q of
                 Inl e \<Rightarrow> Some (Inl e, cs')
               | Inr entry \<Rightarrow> entriesLoop cs' q (entries @ [entry]))
            else Some (Inr entries, cs'))"

definition Entries :: "'d trie \<Rightarrow> ((error + 'd entry option list) \<times> 'd trie) option" where
  "Entries t =
     (case entriesLoop (cells t) (head t) [] of
        None \<Rightarrow> None
      | Some (res, cs) \<Rightarrow> Some (res, t\<lparr>cells := cs\<rparr>))"

text \<open>\<^verbatim>\<open>Values\<close> panics on an error of \<^verbatim>\<open>Entries\<close> and on a \<^verbatim>\<open>nil\<close> entry.\<close>

definition Values :: "'d trie \<Rightarrow> ((error + string list) \<times> 'd trie) option" where
  "Values t =
     (case Entries t of
        None \<Rightarrow> None
      | Some (Inl err, t') \<Rightarrow> Some (Inl Panic, t')
      | Some (Inr entries, t') \<Rightarrow>
          Some (if None \<in> set entries then Inl Panic else Inr (map (\<lambda>e. Value (the e)) entries), t'))"


section \<open>Sequences of operations\<close>

text \<open>
  A call that panics or does not return ends the program; a sequence of calls is then
  not continued (\<open>None\<close>).  \<open>run\<close> executes the calls in order and counts the successful
  inserts (a call of \<^verbatim>\<open>AddEntry\<close>, or of \<^verbatim>\<open>Add\<close> with a non-blank value, that returns no
  error) and the successful removals (calls that return \<^verbatim>\<open>true\<close>).
\<close>

datatype 'd op =
    OpAdd string
  | OpAddEntry "'d entry option"
  | OpRemove string
  | OpRemoveEntry "'d entry option"

fun apply_op :: "'d trie \<Rightarrow> 'd op \<Rightarrow> ('d trie \<times> nat \<times> nat) option" where
  "apply_op t (OpAdd v) =
     (case Add t [v] of
        (Some e, t') \<Rightarrow> if crashed e then None else Some (t', 0, 0)
      | (None, t') \<Rightarrow> Some (t', if TrimSpace v \<noteq> [] then 1 else 0, 0))"
| "apply_op t (OpAddEntry e) =
     (case AddEntry t e of
        (Some err, t') \<Rightarrow> if crashed err then None else Some (t', 0, 0)
      | (None, t') \<Rightarrow> Some (t', 1, 0))"
| "apply_op t (OpRemove v) =
     (case Remove t v of
        (Inl err, t') \<Rightarrow> if crashed err then None else Some (t', 0, 0)
      | (Inr removed, t') \<Rightarrow> Some (t', 0, if removed then 1 else 0))"
| "apply_op t (OpRemoveEntry e) =
     (case RemoveEntry t e of
        (Inl err, t') \<Rightarrow> if crashed err then None else Some (t', 0, 0)
      | (Inr removed, t') \<Rightarrow> Some (t', 0, if removed then 1 else 0))"

fun run :: "'d trie \<Rightarrow> 'd op list \<Rightarrow> ('d trie \<times> nat \<times> nat) option" where
  "run t [] = Some (t, 0, 0)"
| "run t (x # xs) =
     (case apply_op t x of
        None \<Rightarrow> None
      | Some (t1, n1, m1) \<Rightarrow>
          (case run t1 xs of
             None \<Rightarrow> None
           | Some (t2, n2, m2) \<Rightarrow> Some (t2, n1 + n2, m1 + m2)))"

section \<open>Evaluation\<close>

text \<open>The unfolding equations of the loops defined as partial functions, for evaluation.\<close>

declare entriesLoop.simps [code]
declare skipRemovedElements.simps [code]

section \<open>Trimming\<close>

declare Add.simps [simp del] apply_op.simps [simp del] run.simps [simp del]

lemma map_option_snd_SomeD: "map_option snd x = Some p \<Longrightarrow> \<exists>t. x = Some (t, p)"
  by (cases x) auto

lemma runeLen_zero_iff:
  "[] \<notin> set ws \<Longrightarrow> runeLen ws s = 0 \<longleftrightarrow> (\<forall>w \<in> set ws. \<not> prefix w s)"
proof -
  assume ne: "[] \<notin> set ws"
  show ?thesis
  proof (cases "List.find (\<lambda>w. prefix w s) ws")
    case None
    then have "\<forall>w \<in> set ws. \<not> prefix w s" by (simp add: find_None_iff)
    moreover have "runeLen ws s = 0" by (simp add: runeLen_def None)
    ultimately show ?thesis by simp
  next
    case (Some w)
    then have "w \<in> set ws" "prefix w s" by (auto simp: find_Some_iff)
    with ne Some show ?thesis by (auto simp: runeLen_def)
  qed
qed

lemma stripRunes_fix: "runeLen ws s = 0 \<Longrightarrow> stripRunes ws s = s"
  by (simp add: stripRunes.simps)

lemma stripRunes_done: "runeLen ws (stripRunes ws s) = 0"
  by (induction ws s rule: stripRunes.induct) (simp add: stripRunes.simps)

lemma stripRunes_suffix: "suffix (stripRunes ws s) s"
proof (induction ws s rule: stripRunes.induct)
  case (1 ws s)
  show ?case
  proof (cases "runeLen ws s = 0")
    case True
    then show ?thesis by (simp add: stripRunes.simps)
  next
    case False
    from "1.IH"[OF False] have "suffix (stripRunes ws s) (drop (runeLen ws s) s)"
      using False by (simp add: stripRunes.simps[of ws s])
    then show ?thesis by (meson suffix_drop suffix_order.trans)
  qed
qed

lemma spaceRunes_nonempty: "[] \<notin> set spaceRunes" "[] \<notin> set (map rev spaceRunes)"
  by (simp_all add: spaceRunes_def)

text \<open>Trimming a trimmed string changes nothing.\<close>

lemma TrimSpace_idem: "TrimSpace (TrimSpace s) = TrimSpace s"
proof -
  define u where "u = TrimLeft s"
  define x where "x = TrimRight u"
  have nl_u: "runeLen spaceRunes u = 0" by (simp add: u_def TrimLeft_def stripRunes_done)
  have "suffix (rev x) (rev u)" by (simp add: x_def TrimRight_def stripRunes_suffix)
  then have px: "prefix x u" by (simp add: suffix_to_prefix)
  have "\<forall>w \<in> set spaceRunes. \<not> prefix w x"
    using nl_u px by (auto simp: runeLen_zero_iff[OF spaceRunes_nonempty(1)] dest: prefix_order.trans)
  then have nl_x: "runeLen spaceRunes x = 0" by (simp add: runeLen_zero_iff[OF spaceRunes_nonempty(1)])
  have nt_x: "runeLen (map rev spaceRunes) (rev x) = 0"
    by (simp add: x_def TrimRight_def stripRunes_done)
  have "TrimLeft x = x" using nl_x by (simp add: TrimLeft_def stripRunes_fix)
  moreover have "TrimRight x = x" using nt_x by (simp add: TrimRight_def stripRunes_fix)
  ultimately have "TrimSpace x = x" by (simp add: TrimSpace_def)
  then show ?thesis by (simp add: x_def u_def TrimSpace_def)
qed

lemma find_trim: "find t s (TrimSpace v) = find t s v"
  by (simp add: find_def TrimSpace_idem)



lemma Predecessor_trim: "\<not> IsEmpty t \<Longrightarrow> Predecessor t (TrimSpace v) = Predecessor t v"
  by (simp add: Predecessor_def TrimSpace_idem)

lemma Successor_trim: "\<not> IsEmpty t \<Longrightarrow> Successor t (TrimSpace v) = Successor t v"
  by (simp add: Successor_def TrimSpace_idem)



section \<open>The size field\<close>

lemma addNode_fields:
  "addNode t s a = (res, t') \<Longrightarrow>
     size' t' = size' t \<and> cells t' = cells t \<and> digitizer t' = digitizer t \<and>
     head t' = head t \<and> tail t' = tail t"
  by (auto simp: addNode_def split: if_splits sum.splits option.splits prod.splits)

lemma insert_fail_size: "insert t e = (Inl err, t') \<Longrightarrow> size' t' = size' t"
  by (auto simp: insert_def Let_def split: option.splits sum.splits prod.splits if_splits
           dest!: addNode_fields)

lemma insert_ok_size: "insert t e = (Inr n, t') \<Longrightarrow> size' t' = size' t + 1"
  by (auto simp: insert_def Let_def split: option.splits sum.splits prod.splits if_splits
           dest!: addNode_fields)

lemma remove_size:
  "remove t node = (res, t') \<Longrightarrow> size' t' = (if res = None then size' t - 1 else size' t)"
  by (auto simp: remove_def Let_def split: option.splits sum.splits prod.splits if_splits node.splits)

lemma RemoveEntry_size:
  "RemoveEntry t e = (res, t') \<Longrightarrow> size' t' = (if res = Inr True then size' t - 1 else size' t)"
  by (auto simp: RemoveEntry_def split: option.splits sum.splits prod.splits if_splits
           dest!: remove_size)

lemma AddEntry_size:
  "AddEntry t e = (res, t') \<Longrightarrow> size' t' = (if res = None then size' t + 1 else size' t)"
  by (auto simp: AddEntry_def split: sum.splits prod.splits dest: insert_fail_size insert_ok_size)

lemma apply_op_Len:
  "apply_op t x = Some (t', n, m) \<Longrightarrow> Len t' = Len t + int n - int m"
  by (cases x)
     (auto simp: Len_def Remove_def Let_def apply_op.simps Add.simps split: prod.splits option.splits sum.splits if_splits
           dest!: AddEntry_size RemoveEntry_size)

lemma run_Len: "run t ops = Some (t', n, m) \<Longrightarrow> Len t' = Len t + int n - int m"
proof (induction ops arbitrary: t t' n m)
  case Nil
  then show ?case by (simp add: run.simps)
next
  case (Cons x xs)
  from Cons.prems obtain t1 n1 m1 t2 n2 m2 where
    a: "apply_op t x = Some (t1, n1, m1)" and r: "run t1 xs = Some (t2, n2, m2)"
    and e: "t' = t2" "n = n1 + n2" "m = m1 + m2"
    by (auto simp: run.simps split: option.splits prod.splits)
  from apply_op_Len[OF a] Cons.IH[OF r] e show ?case by simp
qed

section \<open>Abstract view of the tree\<close>

text \<open>
  What follows is about the model, for the claims on sequences of calls: the leaves of a
  node tree from left to right (\<open>inorder\<close>), and those to the left (\<open>before\<close>) and to the right
  (\<open>after\<close>) of the position at a path.
\<close>

fun inorder :: "node \<Rightarrow> addr list" where
  "inorder (Leaf a) = [a]"
| "inorder (Node ch r k) = concat (map (\<lambda>c. case c of None \<Rightarrow> [] | Some n \<Rightarrow> inorder n) ch)"

definition inorderO :: "node option \<Rightarrow> addr list" where
  "inorderO c = (case c of None \<Rightarrow> [] | Some n \<Rightarrow> inorder n)"

lemma inorderO_simps [simp]: "inorderO None = []" "inorderO (Some n) = inorder n"
  by (simp_all add: inorderO_def)

lemma inorder_Node [simp]: "inorder (Node ch r k) = concat (map inorderO ch)"
  by (simp add: inorderO_def[abs_def])

declare inorder.simps(2) [simp del]

fun before :: "node \<Rightarrow> path \<Rightarrow> addr list" where
  "before (Leaf a) q = []"
| "before (Node ch r k) [] = []"
| "before (Node ch r k) (i # q) =
     concat (map inorderO (take (nat i) ch)) @
     (if 0 \<le> i \<and> nat i < length ch then (case ch ! nat i of None \<Rightarrow> [] | Some c \<Rightarrow> before c q) else [])"

fun after :: "node \<Rightarrow> path \<Rightarrow> addr list" where
  "after (Leaf a) q = []"
| "after (Node ch r k) [] = []"
| "after (Node ch r k) (i # q) =
     (if 0 \<le> i \<and> nat i < length ch then (case ch ! nat i of None \<Rightarrow> [] | Some c \<Rightarrow> after c q) else []) @
     concat (map inorderO (drop (Suc (nat i)) ch))"

lemma concat_split_nth:
  "i < length xs \<Longrightarrow> concat (map f xs) = concat (map f (take i xs)) @ f (xs ! i) @ concat (map f (drop (Suc i) xs))"
  by (metis append_Cons append_Nil concat.simps(2) concat_append id_take_nth_drop list.simps(9) map_append)

lemma inorder_split:
  "lookup n q = Some c \<Longrightarrow> inorder n = before n q @ inorder c @ after n q"
proof (induction q arbitrary: n)
  case Nil
  then show ?case by (cases n) auto
next
  case (Cons i q)
  show ?case
  proof (cases n)
    case (Leaf a)
    with Cons.prems show ?thesis by simp
  next
    case (Node ch r k)
    with Cons.prems obtain c' where i: "0 \<le> i" "nat i < length ch" and c': "ch ! nat i = Some c'"
      and l: "lookup c' q = Some c"
      by (auto split: if_splits option.splits)
    from Cons.IH[OF l] have "inorder c' = before c' q @ inorder c @ after c' q" .
    with i c' Node show ?thesis
      by (simp add: concat_split_nth[of "nat i" ch inorderO])
  qed
qed


lemma lookup_replaceAt:
  "lookup n q = Some c \<Longrightarrow> lookup (replaceAt n q m) (q @ q') = lookup m q'"
proof (induction q arbitrary: n)
  case Nil
  then show ?case by simp
next
  case (Cons i q)
  then show ?case by (cases n) (auto split: if_splits option.splits)
qed

lemma replaceAt_replaceAt:
  "lookup n q = Some c \<Longrightarrow> replaceAt (replaceAt n q m) (q @ q') x = replaceAt n q (replaceAt m q' x)"
proof (induction q arbitrary: n)
  case Nil
  then show ?case by simp
next
  case (Cons i q)
  then show ?case by (cases n) (auto split: if_splits option.splits)
qed

lemma replaceAt_id: "lookup n q = Some c \<Longrightarrow> replaceAt n q c = n"
proof (induction q arbitrary: n)
  case Nil
  then show ?case by simp
next
  case (Cons i q)
  then show ?case by (cases n) (auto split: if_splits option.splits simp: list_update_same_conv)
qed

lemma concat_take_update:
  "concat (map f (take i (xs[i := y]))) = concat (map f (take i xs))"
  by simp

lemma concat_drop_update:
  "concat (map f (drop (Suc i) (xs[i := y]))) = concat (map f (drop (Suc i) xs))"
  by simp

lemma inorder_replaceAt:
  "lookup n q = Some c \<Longrightarrow> inorder (replaceAt n q m) = before n q @ inorder m @ after n q"
proof (induction q arbitrary: n)
  case Nil
  then show ?case by (cases n) auto
next
  case (Cons i q)
  show ?case
  proof (cases n)
    case (Leaf a)
    with Cons.prems show ?thesis by simp
  next
    case (Node ch r k)
    with Cons.prems obtain c' where i: "0 \<le> i" "nat i < length ch" and c': "ch ! nat i = Some c'"
      and l: "lookup c' q = Some c"
      by (auto split: if_splits option.splits)
    from Cons.IH[OF l] have "inorder (replaceAt c' q m) = before c' q @ inorder m @ after c' q" .
    with i c' Node show ?thesis
      by (simp add: concat_split_nth[of "nat i" "ch[nat i := Some (replaceAt c' q m)]" inorderO])
  qed
qed

lemma before_replaceAt:
  "lookup n q = Some c \<Longrightarrow> before (replaceAt n q m) (q @ q') = before n q @ before m q'"
proof (induction q arbitrary: n)
  case Nil
  then show ?case by (cases n) auto
next
  case (Cons i q)
  then show ?case by (cases n) (auto split: if_splits option.splits)
qed

lemma after_replaceAt:
  "lookup n q = Some c \<Longrightarrow> after (replaceAt n q m) (q @ q') = after m q' @ after n q"
proof (induction q arbitrary: n)
  case Nil
  then show ?case by (cases n) auto
next
  case (Cons i q)
  then show ?case by (cases n) (auto split: if_splits option.splits)
qed

lemma before_append:
  "lookup n q = Some c \<Longrightarrow> before n (q @ q') = before n q @ before c q'"
  using before_replaceAt[of n q c c q'] by (simp add: replaceAt_id)

lemma after_append:
  "lookup n q = Some c \<Longrightarrow> after n (q @ q') = after c q' @ after n q"
  using after_replaceAt[of n q c c q'] by (simp add: replaceAt_id)

lemma filter_length_update:
  "i < length xs \<Longrightarrow>
   length (filter P (xs[i := y])) + (if P (xs ! i) then 1 else 0) =
   length (filter P xs) + (if P y then 1 else 0)"
proof (induction xs arbitrary: i)
  case Nil
  then show ?case by simp
next
  case (Cons x xs)
  then show ?case by (cases i) auto
qed

section \<open>Keys under the ASCII digitizer\<close>

text \<open>
  \<open>code\<close> is the digit of a printable character in \<^verbatim>\<open>asciiTable\<close>; \<open>keyPath v\<close> is the digit
  sequence of a trimmed key, closed by the end marker 0.  \<open>goodKey\<close> are the keys every
  digit of which the ASCII digitizer gives: trimmed, not empty, at most 97 characters (the
  digitizer refuses a place above its base), all of them printable.
\<close>

definition code :: "char \<Rightarrow> int" where
  "code c = int (of_char c) - 31"

definition keyPath :: "string \<Rightarrow> path" where
  "keyPath v = map code v @ [0]"

definition goodKey :: "string \<Rightarrow> bool" where
  "goodKey v = (TrimSpace v = v \<and> v \<noteq> [] \<and> length v \<le> 97 \<and>
                (\<forall>c \<in> set v. 32 \<le> (of_char c :: nat) \<and> (of_char c :: nat) \<le> 126))"

text \<open>The digits a digitizer gives for positions \<open>k, k + 1, ...\<close> of a value.\<close>

fun follows :: "digitizer \<Rightarrow> string \<Rightarrow> nat \<Rightarrow> path \<Rightarrow> bool" where
  "follows d v k [] = True"
| "follows d v k (i # q) = (DigitOf d v (int k) = Inr i \<and> follows d v (Suc k) q)"

lemma follows_append:
  "follows d v k (p @ q) = (follows d v k p \<and> follows d v (k + length p) q)"
  by (induction p arbitrary: k) auto

lemma follows_unique:
  "follows d v k p \<Longrightarrow> follows d v k q \<Longrightarrow> length p = length q \<Longrightarrow> p = q"
proof (induction p arbitrary: k q)
  case Nil
  then show ?case by simp
next
  case (Cons i p)
  then show ?case by (cases q) auto
qed

lemma follows_prefix:
  "follows d v k p \<Longrightarrow> follows d v k q \<Longrightarrow> length p \<le> length q \<Longrightarrow> p = take (length p) q"
proof (induction p arbitrary: k q)
  case Nil
  then show ?case by simp
next
  case (Cons i p)
  then show ?case by (cases q) auto
qed

abbreviation ascii :: digitizer where
  "ascii \<equiv> NewASCIIDigitizer"

lemma ascii_simps [simp]:
  "Base ascii = 96" "IsPrefixFree ascii" "NumDigitsOf ascii v = int (length v) + 1"
  "DigitOf ascii = asciiDigitOf 96"
  by (simp_all add: NewASCIIDigitizer_def)

lemma code_range: "asciiTable c = Some i \<Longrightarrow> 1 \<le> i \<and> i \<le> 95 \<and> i = code c"
  by (auto simp: asciiTable_def code_def Let_def split: if_splits)

lemma asciiDigitOf_end: "TrimSpace v = v \<Longrightarrow> int (length v) \<le> j \<Longrightarrow> asciiDigitOf 96 v j = Inr 0"
  by (simp add: asciiDigitOf_def)

lemma asciiDigitOf_Inr:
  "TrimSpace v = v \<Longrightarrow> 0 \<le> j \<Longrightarrow> j < int (length v) \<Longrightarrow> asciiDigitOf 96 v j = Inr i \<Longrightarrow>
     i = code (v ! nat j) \<and> 1 \<le> i \<and> i \<le> 95 \<and> j \<le> 96 \<and>
     32 \<le> (of_char (v ! nat j) :: nat) \<and> (of_char (v ! nat j) :: nat) \<le> 126"
  by (auto simp: asciiDigitOf_def asciiTable_def code_def Let_def split: if_splits option.splits)

lemma asciiDigitOf_good:
  "goodKey v \<Longrightarrow> j < length v \<Longrightarrow> asciiDigitOf 96 v (int j) = Inr (code (v ! j))"
  by (auto simp: goodKey_def asciiDigitOf_def asciiTable_def code_def Let_def)

lemma follows_keyPath_aux:
  "goodKey v \<Longrightarrow> k \<le> length v \<Longrightarrow> follows ascii v k (drop k (keyPath v))"
proof (induction "length v - k" arbitrary: k)
  case 0
  then have "k = length v" by simp
  with "0.prems" show ?case by (simp add: keyPath_def asciiDigitOf_end goodKey_def)
next
  case (Suc n)
  then have k: "k < length v" by simp
  then have "drop k (keyPath v) = code (v ! k) # drop (Suc k) (keyPath v)"
    by (simp add: keyPath_def Cons_nth_drop_Suc[symmetric] nth_append)
  moreover have "follows ascii v (Suc k) (drop (Suc k) (keyPath v))"
    using Suc k by (intro Suc.hyps(1)) auto
  ultimately show ?case using Suc.prems k by (simp add: asciiDigitOf_good)
qed

lemma follows_keyPath: "goodKey v \<Longrightarrow> follows ascii v 0 (keyPath v)"
  using follows_keyPath_aux[of v 0] by simp

lemma length_keyPath [simp]: "length (keyPath v) = Suc (length v)"
  by (simp add: keyPath_def)

lemma keyPath_nonempty [simp]: "keyPath v \<noteq> []"
  by (simp add: keyPath_def)


section \<open>Positions of the search context\<close>

definition posCtx :: "path \<Rightarrow> searchContext" where
  "posCtx p = \<lparr> pointer = Some p, branchPosition = int (length p) \<rparr>"

lemma posCtx_simps [simp]:
  "pointer (posCtx p) = Some p" "branchPosition (posCtx p) = int (length p)"
  by (simp_all add: posCtx_def)

lemma posCtx_step [simp]:
  "(posCtx p)\<lparr> branchPosition := int (length p) + 1, pointer := Some (p @ [i]) \<rparr> = posCtx (p @ [i])"
  "(posCtx p)\<lparr> pointer := Some (p @ [i]), branchPosition := int (length p) + 1 \<rparr> = posCtx (p @ [i])"
  by (simp_all add: posCtx_def)

lemma deref_Some [simp]: "deref (Some rn) (Some p) = lookup rn p"
  by (simp add: deref_def)

lemma ChildAt_in_range:
  "0 \<le> i \<Longrightarrow> nat i < length (slots n) \<Longrightarrow> ChildAt n i = Inr (slots n ! nat i)"
  by (simp add: ChildAt_def checkBounds_def)

lemma ChildAt_neg: "i < 0 \<Longrightarrow> ChildAt n i = Inl ErrIndexOutOfBounds"
  by (simp add: ChildAt_def checkBounds_def)

lemma descendToIndex_in_range:
  "lookup rn p = Some n \<Longrightarrow> 0 \<le> i \<Longrightarrow> nat i < length (slots n) \<Longrightarrow>
   descendToIndex (Some rn) (posCtx p) i =
     (case slots n ! nat i of
        None \<Rightarrow> Inr (childNotFound, posCtx p)
      | Some c \<Rightarrow> Inr (i, posCtx (p @ [i])))"
  by (simp add: descendToIndex_def ChildAt_in_range split: option.splits)

lemma descendToIndex_neg:
  "lookup rn p = Some n \<Longrightarrow> i < 0 \<Longrightarrow>
   descendToIndex (Some rn) (posCtx p) i = Inr (childNotFound, posCtx p)"
  by (simp add: descendToIndex_def ChildAt_neg)

lemma lookup_snoc:
  "lookup rn p = Some n \<Longrightarrow>
   lookup rn (p @ [i]) =
     (if 0 \<le> i \<and> nat i < length (slots n) then slots n ! nat i else None)"
  by (simp add: lookup_append split: option.splits)

lemma descendToIndex_cases:
  assumes "descendToIndex (Some rn) (posCtx p) i = Inr (m, s')" and "lookup rn p = Some n"
  shows "(m = childNotFound \<and> s' = posCtx p \<and>
            (i < 0 \<or> int (length (slots n)) < i \<or> (nat i < length (slots n) \<and> slots n ! nat i = None)))
         \<or> (m = i \<and> 0 \<le> i \<and> s' = posCtx (p @ [i]) \<and> (\<exists>c. lookup rn (p @ [i]) = Some c))"
  using assms
  by (auto simp: descendToIndex_def ChildAt_def checkBounds_def lookup_snoc childNotFound_def
           split: option.splits sum.splits if_splits)

text \<open>What a search result says about the node \<open>m\<close> reached at depth \<open>l\<close>.\<close>

definition outcome :: "digitizer \<Rightarrow> string \<Rightarrow> int \<Rightarrow> searchResult \<Rightarrow> node \<Rightarrow> nat \<Rightarrow> bool" where
  "outcome d v n res m l =
     (case res of
        Matched \<Rightarrow> IsLeaf m \<and> int l = n
      | Unmatched \<Rightarrow> \<not> IsLeaf m \<and> int l \<noteq> n \<and>
          (\<exists>i. DigitOf d v (int l) = Inr i \<and>
               (i < 0 \<or> int (length (slots m)) < i \<or>
                (nat i < length (slots m) \<and> slots m ! nat i = None)))
      | Prefix \<Rightarrow> \<not> IsLeaf m \<and> int l = n
      | Extension \<Rightarrow> IsLeaf m \<and> int l \<noteq> n
      | _ \<Rightarrow> False)"

lemma findLoop_char:
  assumes "findLoop d (Some rn) v n (posCtx p) = Inr (res, s')" and "lookup rn p = Some m"
  shows "\<exists>q m'. s' = posCtx (p @ q) \<and> lookup rn (p @ q) = Some m' \<and> follows d v (length p) q \<and>
           outcome d v n res m' (length (p @ q))"
  using assms
proof (induction d "Some rn" v n "posCtx p" arbitrary: p m rule: findLoop.induct)
  case (1 d v n p m)
  have leaf: "atLeaf (Some rn) (posCtx p) = IsLeaf m"
    using "1.prems"(2) by (simp add: atLeaf_def IsLeaf_def split: node.splits)
  show ?case
  proof (cases "IsLeaf m")
    case True
    with "1.prems" leaf have "s' = posCtx p" "res = (if int (length p) \<noteq> n then Extension else Matched)"
      by (auto simp: findLoop.simps[of d "Some rn" v n "posCtx p"] split: if_splits)
    with True "1.prems"(2) show ?thesis by (intro exI[of _ "[]"]) (auto simp: outcome_def)
  next
    case False
    show ?thesis
    proof (cases "int (length p) = n")
      case True
      with False "1.prems" leaf have "s' = posCtx p" "res = Prefix"
        by (auto simp: findLoop.simps[of d "Some rn" v n "posCtx p"])
      with True False "1.prems"(2) show ?thesis by (intro exI[of _ "[]"]) (auto simp: outcome_def)
    next
      case ne: False
      from False ne "1.prems" leaf obtain i k s1 where
        dg: "DigitOf d v (int (length p)) = Inr i"
        and ds: "descendToIndex (Some rn) (posCtx p) i = Inr (k, s1)"
        and rest: "(if k = childNotFound then Inr (Unmatched, s1) else findLoop d (Some rn) v n s1) = Inr (res, s')"
        by (auto simp: findLoop.simps[of d "Some rn" v n "posCtx p"] descendTo_def split: sum.splits)
      from descendToIndex_cases[OF ds "1.prems"(2)] show ?thesis
      proof
        assume a: "k = childNotFound \<and> s1 = posCtx p \<and>
            (i < 0 \<or> int (length (slots m)) < i \<or> (nat i < length (slots m) \<and> slots m ! nat i = None))"
        with rest have "res = Unmatched" "s' = posCtx p" by auto
        with a False ne dg "1.prems"(2) show ?thesis by (intro exI[of _ "[]"]) (auto simp: outcome_def)
      next
        assume a: "k = i \<and> 0 \<le> i \<and> s1 = posCtx (p @ [i]) \<and> (\<exists>c. lookup rn (p @ [i]) = Some c)"
        then obtain c where c: "lookup rn (p @ [i]) = Some c" by blast
        from a have knf: "k \<noteq> childNotFound" by (auto simp: childNotFound_def)
        have dt: "descendTo d (Some rn) (posCtx p) v = Inr (k, s1)"
          using dg ds by (simp add: descendTo_def)
        from rest knf a have fl: "findLoop d (Some rn) v n (posCtx (p @ [i])) = Inr (res, s')" by simp
        have ptr: "pointer (posCtx p) \<noteq> None \<and> \<not> atLeaf (Some rn) (posCtx p)"
          using leaf False by simp
        have bp: "branchPosition (posCtx p) \<noteq> n" using ne by simp
        from a have s1: "(k, posCtx (p @ [i])) = (k, s1)" by simp
        from "1.hyps"[OF ptr bp dt s1 knf fl c]
        obtain q m' where q: "s' = posCtx ((p @ [i]) @ q)" "lookup rn ((p @ [i]) @ q) = Some m'"
          "follows d v (length (p @ [i])) q"
          and r: "outcome d v n res m' (length ((p @ [i]) @ q))"
          by blast
        show ?thesis
          apply (rule exI[of _ "i # q"])
          apply (rule exI[of _ m'])
          using q r dg by simp
      qed
    qed
  qed
qed


lemma lookup_Cons_Some:
  "lookup m (i # q) = Some x \<Longrightarrow>
     \<exists>c. 0 \<le> i \<and> nat i < length (slots m) \<and> slots m ! nat i = Some c \<and> lookup c q = Some x \<and> \<not> IsLeaf m"
  by (cases m) (auto simp: IsLeaf_def split: if_splits option.splits)

lemma findLoop_to_leaf:
  "lookup rn p = Some m \<Longrightarrow> lookup m q = Some (Leaf a) \<Longrightarrow> follows d v (length p) q \<Longrightarrow>
   int (length (p @ q)) = n \<Longrightarrow>
   findLoop d (Some rn) v n (posCtx p) = Inr (Matched, posCtx (p @ q))"
proof (induction q arbitrary: p m)
  case Nil
  then show ?case
    by (simp add: findLoop.simps[of d "Some rn" v n "posCtx p"] atLeaf_def)
next
  case (Cons i q)
  from lookup_Cons_Some[OF Cons.prems(2)] obtain c where
    i: "0 \<le> i" "nat i < length (slots m)" and c: "slots m ! nat i = Some c"
    and l: "lookup c q = Some (Leaf a)" and nl: "\<not> IsLeaf m"
    by blast
  have lc: "lookup rn (p @ [i]) = Some c" using Cons.prems(1) i c by (simp add: lookup_snoc)
  have nal: "\<not> atLeaf (Some rn) (posCtx p)"
    using Cons.prems(1) nl by (simp add: atLeaf_def IsLeaf_def split: node.splits)
  have dg: "DigitOf d v (int (length p)) = Inr i" and fo: "follows d v (length (p @ [i])) q"
    using Cons.prems(3) by simp_all
  have ds: "descendToIndex (Some rn) (posCtx p) i = Inr (i, posCtx (p @ [i]))"
    using descendToIndex_in_range[OF Cons.prems(1) i] c by simp
  have ne: "int (length p) \<noteq> n" using Cons.prems(4) by simp
  have inf: "i \<noteq> childNotFound" using i by (simp add: childNotFound_def)
  have "findLoop d (Some rn) v n (posCtx (p @ [i])) = Inr (Matched, posCtx ((p @ [i]) @ q))"
    using Cons.IH[OF lc l fo] Cons.prems(4) by simp
  then show ?case
    using nal ne dg ds inf
    by (simp add: findLoop.simps[of d "Some rn" v n "posCtx p"] descendTo_def)
qed

section \<open>Well-formed tries\<close>

text \<open>The number of occupied child slots.\<close>

definition occupied :: "node option list \<Rightarrow> nat" where
  "occupied ch = length (filter (\<lambda>c. c \<noteq> None) ch)"

lemma occupied_update:
  "i < length ch \<Longrightarrow>
   occupied (ch[i := y]) + (if ch ! i \<noteq> None then 1 else 0) =
   occupied ch + (if y \<noteq> None then 1 else 0)"
  unfolding occupied_def by (rule filter_length_update)

lemma occupied_pos: "0 < occupied ch \<Longrightarrow> \<exists>i < length ch. \<exists>c. ch ! i = Some c"
proof -
  assume "0 < occupied ch"
  then have "filter (\<lambda>c. c \<noteq> None) ch \<noteq> []" by (simp add: occupied_def)
  then obtain x where "x \<in> set ch" "x \<noteq> None" by (auto simp: filter_empty_conv)
  then show ?thesis by (auto simp: in_set_conv_nth)
qed

lemma occupied_replicate [simp]: "occupied (replicate n None) = 0"
  by (simp add: occupied_def)

text \<open>The key stored at a leaf address, for the addresses behind the two sentinels.\<close>

definition keyAt :: "'d store \<Rightarrow> addr \<Rightarrow> string option" where
  "keyAt cs a = (if 2 \<le> a \<and> a < length cs then map_option Value (lvalue (cs ! a)) else None)"

text \<open>
  \<open>wfN kv p n\<close>: the subtree \<open>n\<close> at the path \<open>p\<close> is well formed.  A leaf sits at the digit
  path of its key.  An internal node has 96 slots, is flagged as root exactly at the empty
  path, counts its occupied slots in \<^verbatim>\<open>numChildren\<close>, has a child unless it is the root, and
  is not below an end marker.
\<close>

function wfN :: "(addr \<Rightarrow> string option) \<Rightarrow> path \<Rightarrow> node \<Rightarrow> bool" where
  "wfN kv p (Leaf a) = (case kv a of None \<Rightarrow> False | Some v \<Rightarrow> goodKey v \<and> keyPath v = p)"
| "wfN kv p (Node ch r k) =
     (length ch = 96 \<and> (r \<longleftrightarrow> p = []) \<and> k = int (occupied ch) \<and>
      (p \<noteq> [] \<longrightarrow> 0 < k) \<and> 0 \<notin> set p \<and>
      (\<forall>i < length ch. case ch ! i of None \<Rightarrow> True | Some c \<Rightarrow> wfN kv (p @ [int i]) c))"
  by pat_completeness auto
termination
  by (relation "measure (\<lambda>(kv, p, n). size n)") (auto dest: size_child)


lemma wfN_mono:
  "wfN kv p n \<Longrightarrow> (\<And>a v. kv a = Some v \<Longrightarrow> kv' a = Some v) \<Longrightarrow> wfN kv' p n"
proof (induction kv p n rule: wfN.induct)
  case (1 kv p a)
  then show ?case by (auto split: option.splits)
next
  case (2 kv p ch r k)
  show ?case
    unfolding wfN.simps
  proof (intro conjI allI impI)
    fix i assume i: "i < length ch"
    show "case ch ! i of None \<Rightarrow> True | Some c \<Rightarrow> wfN kv' (p @ [int i]) c"
    proof (cases "ch ! i")
      case None
      then show ?thesis by simp
    next
      case (Some c)
      from "2.prems"(1) i Some have "wfN kv (p @ [int i]) c" by (auto split: option.splits)
      from "2.IH"[OF i Some this "2.prems"(2)] Some show ?thesis by simp
    qed
  qed (use "2.prems"(1) in auto)
qed

lemma wfN_child:
  "wfN kv p (Node ch r k) \<Longrightarrow> 0 \<le> i \<Longrightarrow> nat i < length ch \<Longrightarrow> ch ! nat i = Some c \<Longrightarrow>
   wfN kv (p @ [i]) c"
  by (auto split: option.splits dest!: spec[of _ "nat i"])

lemma wfN_lookup:
  "wfN kv p n \<Longrightarrow> lookup n q = Some c \<Longrightarrow> wfN kv (p @ q) c"
proof (induction q arbitrary: p n)
  case Nil
  then show ?case by simp
next
  case (Cons i q)
  from lookup_Cons_Some[OF Cons.prems(2)] obtain c' where
    i: "0 \<le> i" "nat i < length (slots n)" and c': "slots n ! nat i = Some c'" and l: "lookup c' q = Some c"
    by blast
  then obtain ch r k where n: "n = Node ch r k" by (cases n) auto
  from Cons.prems(1) n i c' have "wfN kv (p @ [i]) c'" by (auto intro: wfN_child)
  from Cons.IH[OF this l] show ?case by simp
qed

lemma wfN_replaceAt:
  "wfN kv p n \<Longrightarrow> lookup n q = Some c \<Longrightarrow> wfN kv (p @ q) m \<Longrightarrow> wfN kv p (replaceAt n q m)"
proof (induction q arbitrary: p n)
  case Nil
  then show ?case by simp
next
  case (Cons i q)
  from lookup_Cons_Some[OF Cons.prems(2)] obtain c' where
    i: "0 \<le> i" "nat i < length (slots n)" and c': "slots n ! nat i = Some c'" and l: "lookup c' q = Some c"
    by blast
  then obtain ch r k where n: "n = Node ch r k" by (cases n) auto
  from Cons.prems(1) n i c' have w: "wfN kv (p @ [i]) c'" by (auto intro: wfN_child)
  from Cons.IH[OF w l] Cons.prems(3) have w': "wfN kv (p @ [i]) (replaceAt c' q m)" by simp
  let ?ch = "ch[nat i := Some (replaceAt c' q m)]"
  have r: "replaceAt n (i # q) m = Node ?ch r k" using n i c' by simp
  have cnt: "occupied ?ch = occupied ch"
    using occupied_update[of "nat i" ch "Some (replaceAt c' q m)"] i c' n by simp
  have kids: "\<forall>j < length ?ch. case ?ch ! j of None \<Rightarrow> True | Some c \<Rightarrow> wfN kv (p @ [int j]) c"
  proof (intro allI impI)
    fix j assume j: "j < length ?ch"
    show "case ?ch ! j of None \<Rightarrow> True | Some c \<Rightarrow> wfN kv (p @ [int j]) c"
    proof (cases "j = nat i")
      case True
      with i n w' show ?thesis by simp
    next
      case False
      with j Cons.prems(1) n show ?thesis by (auto split: option.splits)
    qed
  qed
  show ?case unfolding r wfN.simps using Cons.prems(1) n cnt kids by auto
qed

lemma concat_nonempty: "i < length xs \<Longrightarrow> f (xs ! i) \<noteq> [] \<Longrightarrow> concat (map f xs) \<noteq> []"
  by (auto intro!: bexI[of _ "xs ! i"])

lemma wfN_nonempty: "wfN kv p n \<Longrightarrow> p \<noteq> [] \<Longrightarrow> inorder n \<noteq> []"
proof (induction kv p n rule: wfN.induct)
  case (1 kv p a)
  then show ?case by simp
next
  case (2 kv p ch r k)
  from "2.prems" have "0 < occupied ch" by simp
  from occupied_pos[OF this] obtain i c where i: "i < length ch" and c: "ch ! i = Some c" by auto
  from "2.prems"(1) i c have "wfN kv (p @ [int i]) c" by (auto split: option.splits)
  from "2.IH"[OF i c this] have "inorder c \<noteq> []" by simp
  with i c have "inorderO (ch ! i) \<noteq> []" by simp
  from concat_nonempty[OF i, of inorderO, OF this] show ?case by simp
qed

lemma in_concat_nth:
  "a \<in> set (concat (map f xs)) \<Longrightarrow> \<exists>i < length xs. a \<in> set (f (xs ! i))"
proof -
  assume "a \<in> set (concat (map f xs))"
  then obtain x where "x \<in> set xs" "a \<in> set (f x)" by auto
  then show ?thesis by (metis in_set_conv_nth)
qed

lemma wfN_leaf_at:
  "wfN kv p n \<Longrightarrow> a \<in> set (inorder n) \<Longrightarrow>
     \<exists>v q. kv a = Some v \<and> goodKey v \<and> lookup n q = Some (Leaf a) \<and> p @ q = keyPath v"
proof (induction kv p n arbitrary: a rule: wfN.induct)
  case (1 kv p b)
  then show ?case by (auto split: option.splits intro!: exI[of _ "[]"])
next
  case (2 kv p ch r k)
  from "2.prems"(2) have "a \<in> set (concat (map inorderO ch))" by simp
  from in_concat_nth[OF this] obtain i where i: "i < length ch" and a: "a \<in> set (inorderO (ch ! i))"
    by blast
  then obtain c where c: "ch ! i = Some c" and ac: "a \<in> set (inorder c)"
    by (cases "ch ! i") auto
  from "2.prems"(1) i c have "wfN kv (p @ [int i]) c" by (auto split: option.splits)
  from "2.IH"[OF i c this ac] obtain v q where
    v: "kv a = Some v" "goodKey v" and l: "lookup c q = Some (Leaf a)" and pq: "(p @ [int i]) @ q = keyPath v"
    by blast
  have "lookup (Node ch r k) (int i # q) = Some (Leaf a)" using i c l by simp
  with v pq show ?case by (intro exI[of _ v] exI[of _ "int i # q"]) simp
qed

section \<open>The tree after addNode\<close>

text \<open>
  \<open>chainTo q x\<close> is the chain of new internal nodes along the digits \<open>q\<close> that ends in \<open>x\<close>;
  \<open>graft n (i # q) x\<close> is the node \<open>n\<close> with that chain in its slot \<open>i\<close>.
\<close>

fun chainTo :: "int list \<Rightarrow> node \<Rightarrow> node" where
  "chainTo [] x = x"
| "chainTo (i # q) x = Node ((replicate 96 None)[nat i := Some (chainTo q x)]) False 1"

fun graft :: "node \<Rightarrow> int list \<Rightarrow> node \<Rightarrow> node" where
  "graft n [] x = n"
| "graft (Leaf a) (i # q) x = Leaf a"
| "graft (Node ch r k) (i # q) x = Node (ch[nat i := Some (chainTo q x)]) r (k + 1)"

abbreviation emptyNode :: node where
  "emptyNode \<equiv> Node (replicate 96 None) False 0"

lemma graft_emptyNode: "graft emptyNode q emptyNode = chainTo q emptyNode"
  by (cases q) auto

lemma chainTo_append: "chainTo (q @ q') x = chainTo q (chainTo q' x)"
  by (induction q) auto

definition validIx :: "int list \<Rightarrow> bool" where
  "validIx q = (\<forall>i \<in> set q. 0 \<le> i \<and> i < 96)"

lemma validIx_simps [simp]:
  "validIx []" "validIx (i # q) = (0 \<le> i \<and> i < 96 \<and> validIx q)"
  "validIx (q @ q') = (validIx q \<and> validIx q')"
  by (auto simp: validIx_def)

lemma lookup_chainTo: "validIx q \<Longrightarrow> lookup (chainTo q x) q = Some x"
  by (induction q) auto

lemma replaceAt_chainTo: "validIx q \<Longrightarrow> replaceAt (chainTo q x) q y = chainTo q y"
  by (induction q) auto

lemma inorder_chainTo: "validIx q \<Longrightarrow> inorder (chainTo q x) = inorder x"
proof (induction q)
  case Nil
  then show ?case by simp
next
  case (Cons i q)
  then have i: "nat i < length ((replicate 96 None :: node option list)[nat i := Some (chainTo q x)])"
    by auto
  show ?case
    using Cons
    by (auto simp: concat_split_nth[OF i, of inorderO])
qed

lemma concat_replicate_None [simp]: "concat (map inorderO (replicate n None)) = []"
  by (induction n) auto

lemma concat_take_None:
  "(\<forall>j < i. j < length ch \<longrightarrow> ch ! j = None) \<Longrightarrow> concat (map inorderO (take i ch)) = []"
  by (auto simp: in_set_conv_nth)

lemma before_chainTo: "validIx q \<Longrightarrow> before (chainTo q x) (q @ q') = before x q'"
  by (induction q) auto

lemma after_chainTo: "validIx q \<Longrightarrow> after (chainTo q x) (q @ q') = after x q'"
  by (induction q) auto

lemma AddChild_Inr:
  "AddChild n i x = Inr n' \<Longrightarrow>
     \<exists>ch r k. n = Node ch r k \<and> 0 \<le> i \<and> nat i < length ch \<and> ch ! nat i = None \<and>
              n' = Node (ch[nat i := Some x]) r (k + 1)"
  by (cases n) (auto split: if_splits)

lemma addChildAt_Inr:
  "addChildAt (Some rn) (posCtx p) i x = Inr r' \<Longrightarrow> lookup rn p = Some n \<Longrightarrow>
     \<exists>ch r k. n = Node ch r k \<and> 0 \<le> i \<and> nat i < length ch \<and> ch ! nat i = None \<and>
              r' = Some (replaceAt rn p (Node (ch[nat i := Some x]) r (k + 1)))"
  by (auto simp: addChildAt_def split: sum.splits dest!: AddChild_Inr)

lemma addNodeLoop_char:
  assumes "addNodeLoop d (Some rn) (posCtx p) v = (Inr s', r')" and "Base d = 96"
    and "lookup rn p = Some n"
  shows "\<exists>q. s' = posCtx (p @ q) \<and> follows d v (length p) q \<and> validIx (tl q) \<and>
            \<not> int (length (p @ q)) < NumDigitsOf d v - 1 \<and>
            (q \<noteq> [] \<longrightarrow> int (length (p @ q)) = NumDigitsOf d v - 1) \<and>
            r' = Some (replaceAt rn p (graft n q emptyNode)) \<and>
            (q \<noteq> [] \<longrightarrow> (\<exists>ch r k. n = Node ch r k \<and> 0 \<le> hd q \<and> nat (hd q) < length ch \<and>
                          ch ! nat (hd q) = None))"
  using assms
proof (induction d "Some rn" "posCtx p" v arbitrary: rn p n rule: addNodeLoop.induct)
  case (1 d v rn p n)
  show ?case
  proof (cases "int (length p) < NumDigitsOf d v - 1")
    case False
    with "1.prems" have "s' = posCtx p" "r' = Some rn"
      by (auto simp: addNodeLoop.simps[of d "Some rn" "posCtx p" v])
    with False "1.prems"(3) show ?thesis
      by (intro exI[of _ "[]"]) (simp add: replaceAt_id)
  next
    case True
    from True "1.prems"(1) obtain i r1 where
      dg: "DigitOf d v (int (length p)) = Inr i"
      and ac: "addChildAt (Some rn) (posCtx p) i (newNode (Base d)) = Inr r1"
      and rec: "addNodeLoop d r1 (posCtx (p @ [i])) v = (Inr s', r')"
      by (auto simp: addNodeLoop.simps[of d "Some rn" "posCtx p" v] split: sum.splits)
    have nn: "newNode (Base d) = emptyNode" using "1.prems"(2) by (simp add: newNode_def)
    from addChildAt_Inr[OF ac "1.prems"(3)] nn obtain ch r k where
      n: "n = Node ch r k" and i: "0 \<le> i" "nat i < length ch" and e: "ch ! nat i = None"
      and r1: "r1 = Some (replaceAt rn p (Node (ch[nat i := Some emptyNode]) r (k + 1)))"
      by auto
    let ?n1 = "Node (ch[nat i := Some emptyNode]) r (k + 1)"
    let ?rn1 = "replaceAt rn p ?n1"
    have l1: "lookup ?rn1 (p @ [i]) = Some emptyNode"
      using lookup_replaceAt[OF "1.prems"(3), of ?n1 "[i]"] i by simp
    have bp: "branchPosition (posCtx p) < NumDigitsOf d v - 1" using True by simp
    have pc: "posCtx (p @ [i]) = (posCtx p)\<lparr>pointer := Some (the (pointer (posCtx p)) @ [i]),
        branchPosition := branchPosition (posCtx p) + 1\<rparr>"
      by simp
    have dg': "DigitOf d v (branchPosition (posCtx p)) = Inr i" using dg by simp
    from "1.hyps"[OF bp dg' ac[unfolded r1] pc[symmetric] rec[unfolded r1] "1.prems"(2) l1]
    obtain q where q: "s' = posCtx ((p @ [i]) @ q)" "follows d v (length (p @ [i])) q" "validIx (tl q)"
      "\<not> int (length ((p @ [i]) @ q)) < NumDigitsOf d v - 1"
      "q \<noteq> [] \<longrightarrow> int (length ((p @ [i]) @ q)) = NumDigitsOf d v - 1"
      "r' = Some (replaceAt ?rn1 (p @ [i]) (graft emptyNode q emptyNode))"
      and hq: "q \<noteq> [] \<longrightarrow> 0 \<le> hd q \<and> nat (hd q) < 96"
      by auto
    have vq: "validIx q" using q(3) hq by (cases q) auto
    have len: "int (length (p @ i # q)) = NumDigitsOf d v - 1"
      using q(4,5) True by (cases q) auto
    have rr: "replaceAt ?rn1 (p @ [i]) (graft emptyNode q emptyNode) =
              replaceAt rn p (graft n (i # q) emptyNode)"
      using replaceAt_replaceAt[OF "1.prems"(3), of ?n1 "[i]" "graft emptyNode q emptyNode"] i n
      by (simp add: graft_emptyNode)
    show ?thesis
      apply (rule exI[of _ "i # q"])
      using q(1,2,6) vq len rr dg i n e by simp
  qed
qed


lemma lookup_graft:
  "0 \<le> i \<Longrightarrow> nat i < length ch \<Longrightarrow> validIx q \<Longrightarrow>
   lookup (graft (Node ch r k) (i # q) x) (i # q @ q') = lookup x q'"
  using lookup_append[of "chainTo q x" q q'] by (simp add: lookup_chainTo)

lemma replaceAt_graft:
  "0 \<le> i \<Longrightarrow> nat i < length ch \<Longrightarrow> validIx q \<Longrightarrow>
   replaceAt (graft (Node ch r k) (i # q) x) (i # q) y = graft (Node ch r k) (i # q) y"
  by (simp add: replaceAt_chainTo)

lemma graft_snoc: "graft n ((i # q) @ [j]) x = graft n (i # q) (chainTo [j] x)"
  by (cases n) (simp_all add: chainTo_append)

lemma addNode_fresh:
  "0 \<le> Base (digitizer t) \<Longrightarrow>
   addNode t acquireSearchContext a =
   addNode (t\<lparr>root := Some (Node (replicate (nat (Base (digitizer t))) None) True 0)\<rparr>) (posCtx []) a"
  by (simp add: addNode_def acquireSearchContext_def newRootNode_def posCtx_def)

lemma addNode_char:
  assumes an: "addNode t (posCtx p) a = (Inr s', t')" and b: "Base (digitizer t) = 96"
    and rt: "root t = Some rn" and lk: "lookup rn p = Some n"
    and lv: "lvalue (cells t ! a) = Some e"
    and lt: "int (length p) < NumDigitsOf (digitizer t) (Value e)"
  shows "\<exists>i Q ch r k. n = Node ch r k \<and> 0 \<le> i \<and> nat i < length ch \<and> ch ! nat i = None \<and>
           validIx Q \<and> follows (digitizer t) (Value e) (length p) (i # Q) \<and>
           int (length (p @ i # Q)) = NumDigitsOf (digitizer t) (Value e) \<and>
           s' = posCtx (p @ i # Q) \<and>
           t' = t\<lparr>root := Some (replaceAt rn p (graft n (i # Q) (Leaf a)))\<rparr>"
proof -
  let ?d = "digitizer t" and ?v = "Value e"
  from an rt lv obtain s2 r2 j r3 where
    lp: "addNodeLoop ?d (Some rn) (posCtx p) ?v = (Inr s2, r2)"
    and dg: "DigitOf ?d ?v (branchPosition s2) = Inr j"
    and ac: "addChildAt r2 s2 j (Leaf a) = Inr r3"
    and s': "s' = s2\<lparr>pointer := Some (the (pointer s2) @ [j]), branchPosition := branchPosition s2 + 1\<rparr>"
    and t': "t' = t\<lparr>root := r3\<rparr>"
    by (auto simp: addNode_def split: sum.splits prod.splits option.splits)
  from addNodeLoop_char[OF lp b lk] obtain q where
    q: "s2 = posCtx (p @ q)" "follows ?d ?v (length p) q" "validIx (tl q)"
      "\<not> int (length (p @ q)) < NumDigitsOf ?d ?v - 1"
      "q \<noteq> [] \<longrightarrow> int (length (p @ q)) = NumDigitsOf ?d ?v - 1"
      "r2 = Some (replaceAt rn p (graft n q emptyNode))"
      "q \<noteq> [] \<longrightarrow> (\<exists>ch r k. n = Node ch r k \<and> 0 \<le> hd q \<and> nat (hd q) < length ch \<and> ch ! nat (hd q) = None)"
    by blast
  have len: "int (length (p @ q)) = NumDigitsOf ?d ?v - 1" using q(4,5) lt by (cases q) auto
  have dgj: "DigitOf ?d ?v (int (length (p @ q))) = Inr j" using dg q(1) by simp
  have s'': "s' = posCtx (p @ q @ [j])" using s' q(1) by (simp add: posCtx_def)
  show ?thesis
  proof (cases q)
    case Nil
    with q(6) lk have r2: "r2 = Some rn" by (simp add: replaceAt_id)
    from addChildAt_Inr[OF ac[unfolded r2 q(1)]] lk Nil obtain ch r k where
      n: "n = Node ch r k" and j: "0 \<le> j" "nat j < length ch" "ch ! nat j = None"
      and r3: "r3 = Some (replaceAt rn p (Node (ch[nat j := Some (Leaf a)]) r (k + 1)))"
      by auto
    show ?thesis
      apply (rule exI[of _ j], rule exI[of _ "[]"])
      using n j r3 t' s'' Nil dgj len by simp
  next
    case (Cons i Q)
    with q(7) obtain ch r k where n: "n = Node ch r k" and i: "0 \<le> i" "nat i < length ch" "ch ! nat i = None"
      by auto
    from Cons q(3) have vQ: "validIx Q" by simp
    let ?rn2 = "replaceAt rn p (graft n q emptyNode)"
    have l2: "lookup ?rn2 (p @ q) = Some emptyNode"
      using lookup_replaceAt[OF lk, of "graft n q emptyNode" q]
        lookup_graft[OF i(1,2) vQ, of r k emptyNode "[]"] n Cons by simp
    from addChildAt_Inr[OF ac[unfolded q(6) q(1)] l2] obtain
      j: "0 \<le> j" "nat j < 96"
      and r3: "r3 = Some (replaceAt ?rn2 (p @ q) (Node ((replicate 96 None)[nat j := Some (Leaf a)]) False 1))"
      by auto
    have "replaceAt ?rn2 (p @ q) (chainTo [j] (Leaf a)) = replaceAt rn p (graft n (q @ [j]) (Leaf a))"
      using replaceAt_replaceAt[OF lk, of "graft n q emptyNode" q "chainTo [j] (Leaf a)"]
        replaceAt_graft[OF i(1,2) vQ, of r k emptyNode "chainTo [j] (Leaf a)"] n Cons
      by (simp add: graft_snoc[symmetric] del: chainTo.simps)
    with r3 have r3': "r3 = Some (replaceAt rn p (graft n (i # Q @ [j]) (Leaf a)))"
      using Cons by simp
    have vj: "validIx (Q @ [j])" using vQ j by auto
    show ?thesis
      apply (rule exI[of _ i], rule exI[of _ "Q @ [j]"])
      using n i r3' t' s'' Cons dgj len q(2) vj by (simp add: follows_append)
  qed
qed

declare wfN.simps(2) [simp del]

lemma inorder_graft:
  assumes "0 \<le> i" "nat i < length ch" "ch ! nat i = None" "validIx Q"
  shows "inorder (graft (Node ch r k) (i # Q) (Leaf a)) =
           concat (map inorderO (take (nat i) ch)) @ [a] @ concat (map inorderO (drop (Suc (nat i)) ch))"
    and "inorder (Node ch r k) =
           concat (map inorderO (take (nat i) ch)) @ concat (map inorderO (drop (Suc (nat i)) ch))"
    and "before (graft (Node ch r k) (i # Q) (Leaf a)) (i # Q) = concat (map inorderO (take (nat i) ch))"
    and "after (graft (Node ch r k) (i # Q) (Leaf a)) (i # Q) = concat (map inorderO (drop (Suc (nat i)) ch))"
proof -
  let ?ch = "ch[nat i := Some (chainTo Q (Leaf a))]"
  have l: "nat i < length ?ch" using assms by simp
  show "inorder (graft (Node ch r k) (i # Q) (Leaf a)) =
           concat (map inorderO (take (nat i) ch)) @ [a] @ concat (map inorderO (drop (Suc (nat i)) ch))"
    using assms by (simp add: concat_split_nth[OF l, of inorderO] inorder_chainTo)
  show "inorder (Node ch r k) =
           concat (map inorderO (take (nat i) ch)) @ concat (map inorderO (drop (Suc (nat i)) ch))"
    using assms by (simp add: concat_split_nth[OF assms(2), of inorderO])
  show "before (graft (Node ch r k) (i # Q) (Leaf a)) (i # Q) = concat (map inorderO (take (nat i) ch))"
    using assms before_chainTo[of Q "Leaf a" "[]"] by simp
  show "after (graft (Node ch r k) (i # Q) (Leaf a)) (i # Q) = concat (map inorderO (drop (Suc (nat i)) ch))"
    using assms after_chainTo[of Q "Leaf a" "[]"] by simp
qed

text \<open>The leaves before and after the slot \<open>i\<close> of the node at \<open>p\<close>.\<close>

definition leftOf :: "node \<Rightarrow> path \<Rightarrow> int \<Rightarrow> addr list" where
  "leftOf rn p i = before rn p @ concat (map inorderO (take (nat i) (slots (the (lookup rn p)))))"

definition rightOf :: "node \<Rightarrow> path \<Rightarrow> int \<Rightarrow> addr list" where
  "rightOf rn p i = concat (map inorderO (drop (Suc (nat i)) (slots (the (lookup rn p))))) @ after rn p"

lemma graft_tree:
  fixes a :: addr
  assumes lk: "lookup rn p = Some (Node ch r k)"
    and i: "0 \<le> i" "nat i < length ch" "ch ! nat i = None" and v: "validIx Q"
  defines "T \<equiv> replaceAt rn p (graft (Node ch r k) (i # Q) (Leaf a))"
  shows "lookup T (p @ i # Q) = Some (Leaf a)"
    and "inorder T = leftOf rn p i @ [a] @ rightOf rn p i"
    and "inorder rn = leftOf rn p i @ rightOf rn p i"
    and "before T (p @ i # Q) = leftOf rn p i"
    and "after T (p @ i # Q) = rightOf rn p i"
proof -
  note g = inorder_graft[OF i v, where r=r and k=k]
  show "lookup T (p @ i # Q) = Some (Leaf a)"
    unfolding T_def using lookup_replaceAt[OF lk, of _ "i # Q"] lookup_graft[OF i(1,2) v, of r k "Leaf a" "[]"]
    by simp
  show "inorder T = leftOf rn p i @ [a] @ rightOf rn p i"
    unfolding T_def leftOf_def rightOf_def using inorder_replaceAt[OF lk] g(1) lk by simp
  show "inorder rn = leftOf rn p i @ rightOf rn p i"
    unfolding leftOf_def rightOf_def using inorder_split[OF lk] g(2) lk by simp
  show "before T (p @ i # Q) = leftOf rn p i"
    unfolding T_def leftOf_def using before_replaceAt[OF lk, of _ "i # Q"] g(3) lk by simp
  show "after T (p @ i # Q) = rightOf rn p i"
    unfolding T_def rightOf_def using after_replaceAt[OF lk, of _ "i # Q"] g(4) lk by simp
qed

lemma occupied_single: "i < n \<Longrightarrow> occupied ((replicate n None)[i := Some x]) = 1"
  using occupied_update[of i "replicate n None" "Some x"] by simp

lemma wfN_chainTo:
  "kv a = Some v \<Longrightarrow> goodKey v \<Longrightarrow> keyPath v = p @ q \<Longrightarrow> p \<noteq> [] \<Longrightarrow> validIx q \<Longrightarrow>
   0 \<notin> set p \<Longrightarrow> 0 \<notin> set (butlast q) \<Longrightarrow> wfN kv p (chainTo q (Leaf a))"
proof (induction q arbitrary: p)
  case Nil
  then show ?case by simp
next
  case (Cons i q)
  from Cons.prems(5) have i: "0 \<le> i" "nat i < 96" and vq: "validIx q" by auto
  let ?ch = "(replicate 96 None)[nat i := Some (chainTo q (Leaf a))]"
  have sub: "wfN kv (p @ [i]) (chainTo q (Leaf a))"
  proof (cases "q = []")
    case True
    with Cons.prems(1,2,3) show ?thesis by simp
  next
    case False
    with Cons.prems(7) have "i \<noteq> 0" "0 \<notin> set (butlast q)" by auto
    with Cons.prems(6) have "0 \<notin> set (p @ [i])" by simp
    from Cons.IH[where p="p @ [i]", OF Cons.prems(1,2) _ _ vq this \<open>0 \<notin> set (butlast q)\<close>]
      Cons.prems(3)
    show ?thesis by simp
  qed
  have kids: "\<forall>j < length ?ch. case ?ch ! j of None \<Rightarrow> True | Some c \<Rightarrow> wfN kv (p @ [int j]) c"
  proof (intro allI impI)
    fix j assume "j < length ?ch"
    then show "case ?ch ! j of None \<Rightarrow> True | Some c \<Rightarrow> wfN kv (p @ [int j]) c"
      using sub i by (cases "j = nat i") auto
  qed
  show ?case
    using kids i Cons.prems(4,6) by (simp add: occupied_single wfN.simps(2))
qed

lemma keyPath_digits:
  assumes "goodKey v" "keyPath v = p @ q"
  shows "validIx (p @ q)" and "q \<noteq> [] \<Longrightarrow> 0 \<notin> set p" and "0 \<notin> set (butlast (p @ q))"
proof -
  have c: "\<forall>x \<in> set (map code v). 1 \<le> x \<and> x \<le> 95"
    using assms(1) by (auto simp: goodKey_def code_def)
  then show v: "validIx (p @ q)" unfolding assms(2)[symmetric] keyPath_def validIx_def by auto
  have b: "butlast (keyPath v) = map code v" by (simp add: keyPath_def)
  with c show z: "0 \<notin> set (butlast (p @ q))" unfolding assms(2)[symmetric] by auto
  assume "q \<noteq> []"
  then have "set p \<subseteq> set (butlast (p @ q))" by (simp add: butlast_append)
  with z show "0 \<notin> set p" by auto
qed

lemma graft_wf:
  assumes wf: "wfN kv [] rn" and lk: "lookup rn p = Some (Node ch r k)"
    and i: "0 \<le> i" "nat i < length ch" "ch ! nat i = None"
    and kv: "kv a = Some v" "goodKey v" "keyPath v = p @ i # Q"
  shows "wfN kv [] (replaceAt rn p (graft (Node ch r k) (i # Q) (Leaf a)))"
proof -
  from wfN_lookup[OF wf lk] have wn: "wfN kv p (Node ch r k)" by simp
  note kd = keyPath_digits[OF kv(2,3)]
  have vQ: "validIx Q" and zp: "0 \<notin> set p" using kd(1,2) by auto
  let ?c = "chainTo Q (Leaf a)"
  let ?ch = "ch[nat i := Some ?c]"
  have sub: "wfN kv (p @ [i]) ?c"
  proof (cases "Q = []")
    case True
    with kv show ?thesis by simp
  next
    case False
    have "0 \<notin> set (butlast ((p @ [i]) @ Q))" using kd(3) by simp
    with False have "0 \<notin> set (p @ [i])" "0 \<notin> set (butlast Q)"
      by (auto simp: butlast_append split: if_splits)
    from wfN_chainTo[where kv=kv and a=a and v=v and p="p @ [i]" and q=Q, OF kv(1,2) _ _ vQ this] kv(3) show ?thesis by simp
  qed
  have occ: "occupied ?ch = Suc (occupied ch)"
    using occupied_update[of "nat i" ch "Some ?c"] i by simp
  have kids: "\<forall>j < length ?ch. case ?ch ! j of None \<Rightarrow> True | Some c \<Rightarrow> wfN kv (p @ [int j]) c"
  proof (intro allI impI)
    fix j assume j: "j < length ?ch"
    show "case ?ch ! j of None \<Rightarrow> True | Some c \<Rightarrow> wfN kv (p @ [int j]) c"
    proof (cases "j = nat i")
      case True
      with sub i show ?thesis by simp
    next
      case False
      with j wn show ?thesis by (auto simp: wfN.simps(2) split: option.splits)
    qed
  qed
  have "wfN kv p (graft (Node ch r k) (i # Q) (Leaf a))"
    using wn kids occ by (auto simp: wfN.simps(2))
  with wfN_replaceAt[OF wf lk] show ?thesis by simp
qed

section \<open>Navigation to the predecessor\<close>

lemma concat_take_None_tail:
  "j \<le> n \<Longrightarrow> n \<le> length ch \<Longrightarrow> (\<forall>x. j \<le> x \<and> x < n \<longrightarrow> ch ! x = None) \<Longrightarrow>
   concat (map inorderO (take n ch)) = concat (map inorderO (take j ch))"
proof (induction n)
  case 0
  then show ?case by simp
next
  case (Suc n)
  show ?case
  proof (cases "j = Suc n")
    case True
    then show ?thesis by simp
  next
    case False
    with Suc.prems have j: "j \<le> n" and n: "n < length ch" and e: "ch ! n = None" by auto
    from Suc.IH[OF j] Suc.prems n have "concat (map inorderO (take n ch)) = concat (map inorderO (take j ch))"
      by auto
    with n e show ?thesis by (simp add: take_Suc_conv_app_nth)
  qed
qed

lemma concat_drop_None:
  "(\<forall>x. j \<le> x \<and> x < length ch \<longrightarrow> ch ! x = None) \<Longrightarrow> concat (map inorderO (drop j ch)) = []"
  by (auto simp: in_set_conv_nth)

lemma leftFork_char:
  assumes "lookup rn p = Some m" and "i < int (length (slots m))"
  shows "(\<exists>j c. 0 \<le> j \<and> j \<le> i \<and> slots m ! nat j = Some c \<and>
            (\<forall>x. nat j < x \<and> x < nat (i + 1) \<longrightarrow> slots m ! x = None) \<and>
            leftFork (Some rn) (posCtx p) i = Inr (True, posCtx (p @ [j])))
       \<or> ((\<forall>x. x < nat (i + 1) \<longrightarrow> slots m ! x = None) \<and>
            leftFork (Some rn) (posCtx p) i = Inr (False, posCtx p))"
  using assms
proof (induction "nat (i + 1)" arbitrary: i)
  case 0
  then have "i < 0" by simp
  then show ?case by (simp add: leftFork.simps[of "Some rn" "posCtx p" i])
next
  case (Suc n)
  then have i: "0 \<le> i" "nat i < length (slots m)" by auto
  note d = descendToIndex_in_range[OF Suc.prems(1) i]
  show ?case
  proof (cases "slots m ! nat i")
    case (Some c)
    with d i have "leftFork (Some rn) (posCtx p) i = Inr (True, posCtx (p @ [i]))"
      by (simp add: leftFork.simps[of "Some rn" "posCtx p" i] childNotFound_def)
    with Some i show ?thesis
      by (intro disjI1 exI[of _ i] exI[of _ c]) auto
  next
    case None
    with d i have lf: "leftFork (Some rn) (posCtx p) i = leftFork (Some rn) (posCtx p) (i - 1)"
      by (simp add: leftFork.simps[of "Some rn" "posCtx p" i] childNotFound_def)
    have n: "n = nat (i - 1 + 1)" using Suc.hyps(2) by simp
    have b: "i - 1 < int (length (slots m))" using Suc.prems(2) by simp
    have ni: "nat (i + 1) = Suc (nat i)" using i by simp
    from Suc.hyps(1)[OF n Suc.prems(1) b] show ?thesis
    proof
      assume "\<exists>j c. 0 \<le> j \<and> j \<le> i - 1 \<and> slots m ! nat j = Some c \<and>
            (\<forall>x. nat j < x \<and> x < nat (i - 1 + 1) \<longrightarrow> slots m ! x = None) \<and>
            leftFork (Some rn) (posCtx p) (i - 1) = Inr (True, posCtx (p @ [j]))"
      then obtain j c where j: "0 \<le> j" "j \<le> i - 1" "slots m ! nat j = Some c"
        "\<forall>x. nat j < x \<and> x < nat (i - 1 + 1) \<longrightarrow> slots m ! x = None"
        "leftFork (Some rn) (posCtx p) (i - 1) = Inr (True, posCtx (p @ [j]))"
        by blast
      have "\<forall>x. nat j < x \<and> x < nat (i + 1) \<longrightarrow> slots m ! x = None"
      proof (intro allI impI)
        fix x assume x: "nat j < x \<and> x < nat (i + 1)"
        show "slots m ! x = None"
        proof (cases "x = nat i")
          case True
          with None show ?thesis by simp
        next
          case False
          with x ni have "x < nat (i - 1 + 1)" by simp
          with j(4) x show ?thesis by blast
        qed
      qed
      with j lf show ?thesis by (intro disjI1 exI[of _ j] exI[of _ c]) auto
    next
      assume a: "(\<forall>x. x < nat (i - 1 + 1) \<longrightarrow> slots m ! x = None) \<and>
            leftFork (Some rn) (posCtx p) (i - 1) = Inr (False, posCtx p)"
      have "\<forall>x. x < nat (i + 1) \<longrightarrow> slots m ! x = None"
      proof (intro allI impI)
        fix x assume x: "x < nat (i + 1)"
        show "slots m ! x = None"
        proof (cases "x = nat i")
          case True
          with None show ?thesis by simp
        next
          case False
          with x ni have "x < nat (i - 1 + 1)" by simp
          with a show ?thesis by blast
        qed
      qed
      with a lf show ?thesis by auto
    qed
  qed
qed

text \<open>The part of \<open>before m q\<close> that lies inside the child on the path.\<close>

definition below :: "node \<Rightarrow> path \<Rightarrow> addr list" where
  "below m q =
     (case q of [] \<Rightarrow> []
      | i # q' \<Rightarrow> (case slots m ! nat i of None \<Rightarrow> [] | Some c \<Rightarrow> before c q'))"

lemma before_below:
  "0 \<le> i \<Longrightarrow> nat i < length (slots m) \<Longrightarrow>
   before m (i # q) = concat (map inorderO (take (nat i) (slots m))) @ below m (i # q)"
  by (cases m) (auto simp: below_def)

lemma ascend_posCtx [simp]: "ascend (posCtx (p @ [i])) = Inr (posCtx p)"
  by (simp add: ascend_def posCtx_def)

lemma atRoot_posCtx [simp]: "atRoot (posCtx p) = Inr (p = [])"
  by (simp add: atRoot_def)

lemma atLeaf_posCtx: "lookup rn p = Some m \<Longrightarrow> atLeaf (Some rn) (posCtx p) = IsLeaf m"
  by (simp add: atLeaf_def IsLeaf_def split: node.splits)


lemma before_Nil [simp]: "before m [] = []"
  by (cases m) auto

lemma retrace_step:
  assumes "lookup rn p = Some m" and "lookup m q = Some x" and "follows d v (length p) q"
    and "q = [] \<longrightarrow> IsLeaf m" and "below m q = []"
  shows "(\<exists>j c X. retraceToLastLeftFork d (Some rn) (posCtx p) v = Inr (posCtx (p @ [j])) \<and>
             lookup rn (p @ [j]) = Some c \<and> before m q = X @ inorder c)
       \<or> (before m q = [] \<and>
           retraceToLastLeftFork d (Some rn) (posCtx p) v =
             (if p = [] then Inr (posCtx []) else retraceToLastLeftFork d (Some rn) (posCtx (butlast p)) v))"
proof (cases q)
  case Nil
  with assms have "atLeaf (Some rn) (posCtx p)" by (simp add: atLeaf_posCtx)
  then have "retraceToLastLeftFork d (Some rn) (posCtx p) v =
             (if p = [] then Inr (posCtx p)
              else (case ascend (posCtx p) of Inl e \<Rightarrow> Inl e
                    | Inr s'' \<Rightarrow> retraceToLastLeftFork d (Some rn) s'' v))"
    by (simp add: retraceToLastLeftFork.simps[of d "Some rn" "posCtx p" v])
  then have "retraceToLastLeftFork d (Some rn) (posCtx p) v =
             (if p = [] then Inr (posCtx []) else retraceToLastLeftFork d (Some rn) (posCtx (butlast p)) v)"
    by (cases p rule: rev_cases) simp_all
  with Nil show ?thesis by simp
next
  case (Cons i q')
  from lookup_Cons_Some[OF assms(2)[unfolded Cons]] obtain c where
    i: "0 \<le> i" "nat i < length (slots m)" and nl: "\<not> IsLeaf m" by blast
  from assms(3) Cons have dg: "DigitOf d v (int (length p)) = Inr i" by simp
  have nal: "\<not> atLeaf (Some rn) (posCtx p)" using nl assms(1) by (simp add: atLeaf_posCtx)
  have bb: "before m q = concat (map inorderO (take (nat i) (slots m)))"
    using before_below[OF i, of q'] assms(5) Cons by simp
  have ib: "i - 1 < int (length (slots m))" using i by simp
  from leftFork_char[OF assms(1) ib] show ?thesis
  proof
    assume "\<exists>j c. 0 \<le> j \<and> j \<le> i - 1 \<and> slots m ! nat j = Some c \<and>
          (\<forall>x. nat j < x \<and> x < nat (i - 1 + 1) \<longrightarrow> slots m ! x = None) \<and>
          leftFork (Some rn) (posCtx p) (i - 1) = Inr (True, posCtx (p @ [j]))"
    then obtain j c where j: "0 \<le> j" "j \<le> i - 1" "slots m ! nat j = Some c"
      "\<forall>x. nat j < x \<and> x < nat (i - 1 + 1) \<longrightarrow> slots m ! x = None"
      "leftFork (Some rn) (posCtx p) (i - 1) = Inr (True, posCtx (p @ [j]))"
      by blast
    have r: "retraceToLastLeftFork d (Some rn) (posCtx p) v = Inr (posCtx (p @ [j]))"
      using nal dg j(5) by (simp add: retraceToLastLeftFork.simps[of d "Some rn" "posCtx p" v])
    have lc: "lookup rn (p @ [j]) = Some c" using j i assms(1) by (simp add: lookup_snoc)
    have "concat (map inorderO (take (nat i) (slots m))) = concat (map inorderO (take (Suc (nat j)) (slots m)))"
      using concat_take_None_tail[of "Suc (nat j)" "nat i" "slots m"] j i by auto
    also have "\<dots> = concat (map inorderO (take (nat j) (slots m))) @ inorder c"
      using j i by (simp add: take_Suc_conv_app_nth)
    finally have "before m q = concat (map inorderO (take (nat j) (slots m))) @ inorder c"
      using bb by simp
    with r lc show ?thesis by blast
  next
    assume a: "(\<forall>x. x < nat (i - 1 + 1) \<longrightarrow> slots m ! x = None) \<and>
          leftFork (Some rn) (posCtx p) (i - 1) = Inr (False, posCtx p)"
    then have "retraceToLastLeftFork d (Some rn) (posCtx p) v =
             (if p = [] then Inr (posCtx p)
              else (case ascend (posCtx p) of Inl e \<Rightarrow> Inl e
                    | Inr s'' \<Rightarrow> retraceToLastLeftFork d (Some rn) s'' v))"
      using nal dg
      by (simp add: retraceToLastLeftFork.simps[of d "Some rn" "posCtx p" v])
    then have r: "retraceToLastLeftFork d (Some rn) (posCtx p) v =
             (if p = [] then Inr (posCtx []) else retraceToLastLeftFork d (Some rn) (posCtx (butlast p)) v)"
      by (cases p rule: rev_cases) simp_all
    have "concat (map inorderO (take (nat i) (slots m))) = concat (map inorderO (take 0 (slots m)))"
      using concat_take_None_tail[of 0 "nat i" "slots m"] a i by auto
    with bb have "before m q = []" by simp
    with r show ?thesis by simp
  qed
qed

lemma retrace_char:
  assumes "lookup rn p = Some m" and "lookup m q = Some x" and "follows d v 0 (p @ q)"
    and "q = [] \<longrightarrow> IsLeaf m" and "below m q = []"
  shows "(retraceToLastLeftFork d (Some rn) (posCtx p) v = Inr (posCtx []) \<and> before rn (p @ q) = [])
       \<or> (\<exists>p' j c X. retraceToLastLeftFork d (Some rn) (posCtx p) v = Inr (posCtx (p' @ [j])) \<and>
             lookup rn (p' @ [j]) = Some c \<and> before rn (p @ q) = X @ inorder c)"
  using assms
proof (induction p arbitrary: q m rule: rev_induct)
  case Nil
  then have m: "m = rn" by simp
  from Nil.prems(3) have fo: "follows d v (length ([] :: path)) q" by simp
  from retrace_step[OF Nil.prems(1,2) fo Nil.prems(4,5)] show ?case
  proof
    assume "\<exists>j c X. retraceToLastLeftFork d (Some rn) (posCtx []) v = Inr (posCtx ([] @ [j])) \<and>
             lookup rn ([] @ [j]) = Some c \<and> before m q = X @ inorder c"
    then obtain j c X where "retraceToLastLeftFork d (Some rn) (posCtx []) v = Inr (posCtx ([] @ [j]))"
      "lookup rn ([] @ [j]) = Some c" "before m q = X @ inorder c" by blast
    with m show ?thesis
      by (intro disjI2 exI[of _ "[]"] exI[of _ j] exI[of _ c] exI[of _ X]) simp
  next
    assume "before m q = [] \<and>
           retraceToLastLeftFork d (Some rn) (posCtx []) v =
             (if [] = ([] :: path) then Inr (posCtx []) else retraceToLastLeftFork d (Some rn) (posCtx (butlast [])) v)"
    with m show ?thesis by simp
  qed
next
  case (snoc i0 p0)
  from snoc.prems(1) obtain m0 where m0: "lookup rn p0 = Some m0" and
    i0: "0 \<le> i0" "nat i0 < length (slots m0)" "slots m0 ! nat i0 = Some m"
    by (auto simp: lookup_append split: option.splits if_splits)
  have lm0: "lookup m0 (i0 # q) = Some x" using i0 snoc.prems(2) by simp
  from snoc.prems(3) have fo: "follows d v (length (p0 @ [i0])) q" and fo0: "follows d v 0 (p0 @ i0 # q)"
    by (simp_all add: follows_append)
  have ba: "before rn ((p0 @ [i0]) @ q) = before rn (p0 @ [i0]) @ before m q"
    by (rule before_append[OF snoc.prems(1)])
  from retrace_step[OF snoc.prems(1,2) fo snoc.prems(4,5)] show ?case
  proof
    assume "\<exists>j c X. retraceToLastLeftFork d (Some rn) (posCtx (p0 @ [i0])) v = Inr (posCtx ((p0 @ [i0]) @ [j])) \<and>
             lookup rn ((p0 @ [i0]) @ [j]) = Some c \<and> before m q = X @ inorder c"
    then obtain j c X where "retraceToLastLeftFork d (Some rn) (posCtx (p0 @ [i0])) v = Inr (posCtx ((p0 @ [i0]) @ [j]))"
      "lookup rn ((p0 @ [i0]) @ [j]) = Some c" "before m q = X @ inorder c" by blast
    with ba show ?thesis
      by (intro disjI2 exI[of _ "p0 @ [i0]"] exI[of _ j] exI[of _ c] exI[of _ "before rn (p0 @ [i0]) @ X"]) simp
  next
    assume a: "before m q = [] \<and>
           retraceToLastLeftFork d (Some rn) (posCtx (p0 @ [i0])) v =
             (if p0 @ [i0] = [] then Inr (posCtx []) else retraceToLastLeftFork d (Some rn) (posCtx (butlast (p0 @ [i0]))) v)"
    then have r: "retraceToLastLeftFork d (Some rn) (posCtx (p0 @ [i0])) v = retraceToLastLeftFork d (Some rn) (posCtx p0) v"
      by simp
    have bl: "below m0 (i0 # q) = []" using a i0 by (simp add: below_def)
    have eq: "before rn ((p0 @ [i0]) @ q) = before rn (p0 @ (i0 # q))" by simp
    from snoc.IH[OF m0 lm0 fo0 _ bl] show ?thesis unfolding r eq by simp
  qed
qed

lemma maxChild_char:
  assumes "lookup rn p = Some m" and "i < int (length (slots m))"
  shows "(\<exists>j c. 0 \<le> j \<and> j \<le> i \<and> slots m ! nat j = Some c \<and>
            (\<forall>x. nat j < x \<and> x < nat (i + 1) \<longrightarrow> slots m ! x = None) \<and>
            maxChild (Some rn) (posCtx p) i = Inr (posCtx (p @ [j])))
       \<or> ((\<forall>x. x < nat (i + 1) \<longrightarrow> slots m ! x = None) \<and>
            maxChild (Some rn) (posCtx p) i = Inl NoReturn)"
  using assms
proof (induction "nat (i + 1)" arbitrary: i)
  case 0
  then have "i < 0" by simp
  with descendToIndex_neg[OF "0.prems"(1), of i] show ?case
    by (simp add: maxChild.simps[of "Some rn" "posCtx p" i])
next
  case (Suc n)
  then have i: "0 \<le> i" "nat i < length (slots m)" by auto
  note d = descendToIndex_in_range[OF Suc.prems(1) i]
  show ?case
  proof (cases "slots m ! nat i")
    case (Some c)
    with d i have "maxChild (Some rn) (posCtx p) i = Inr (posCtx (p @ [i]))"
      by (simp add: maxChild.simps[of "Some rn" "posCtx p" i] childNotFound_def)
    with Some i show ?thesis
      by (intro disjI1 exI[of _ i] exI[of _ c]) auto
  next
    case None
    with d i have lf: "maxChild (Some rn) (posCtx p) i = maxChild (Some rn) (posCtx p) (i - 1)"
      by (simp add: maxChild.simps[of "Some rn" "posCtx p" i] childNotFound_def)
    have n: "n = nat (i - 1 + 1)" using Suc.hyps(2) by simp
    have b: "i - 1 < int (length (slots m))" using Suc.prems(2) by simp
    have ni: "nat (i + 1) = Suc (nat i)" using i by simp
    from Suc.hyps(1)[OF n Suc.prems(1) b] show ?thesis
    proof
      assume "\<exists>j c. 0 \<le> j \<and> j \<le> i - 1 \<and> slots m ! nat j = Some c \<and>
            (\<forall>x. nat j < x \<and> x < nat (i - 1 + 1) \<longrightarrow> slots m ! x = None) \<and>
            maxChild (Some rn) (posCtx p) (i - 1) = Inr (posCtx (p @ [j]))"
      then obtain j c where j: "0 \<le> j" "j \<le> i - 1" "slots m ! nat j = Some c"
        "\<forall>x. nat j < x \<and> x < nat (i - 1 + 1) \<longrightarrow> slots m ! x = None"
        "maxChild (Some rn) (posCtx p) (i - 1) = Inr (posCtx (p @ [j]))"
        by blast
      have "\<forall>x. nat j < x \<and> x < nat (i + 1) \<longrightarrow> slots m ! x = None"
      proof (intro allI impI)
        fix x assume x: "nat j < x \<and> x < nat (i + 1)"
        show "slots m ! x = None"
        proof (cases "x = nat i")
          case True
          with None show ?thesis by simp
        next
          case False
          with x ni have "x < nat (i - 1 + 1)" by simp
          with j(4) x show ?thesis by blast
        qed
      qed
      with j lf show ?thesis by (intro disjI1 exI[of _ j] exI[of _ c]) auto
    next
      assume a: "(\<forall>x. x < nat (i - 1 + 1) \<longrightarrow> slots m ! x = None) \<and>
            maxChild (Some rn) (posCtx p) (i - 1) = Inl NoReturn"
      have "\<forall>x. x < nat (i + 1) \<longrightarrow> slots m ! x = None"
      proof (intro allI impI)
        fix x assume x: "x < nat (i + 1)"
        show "slots m ! x = None"
        proof (cases "x = nat i")
          case True
          with None show ?thesis by simp
        next
          case False
          with x ni have "x < nat (i - 1 + 1)" by simp
          with a show ?thesis by blast
        qed
      qed
      with a lf show ?thesis by auto
    qed
  qed
qed

lemma moveToMaxDescendant_char:
  assumes "wfN kv p c" and "lookup rn p = Some c" and "p \<noteq> []" and "Base d = 96"
  shows "\<exists>q a. moveToMaxDescendant d (Some rn) (posCtx p) = Inr (posCtx (p @ q)) \<and>
               lookup rn (p @ q) = Some (Leaf a) \<and> inorder c \<noteq> [] \<and> a = last (inorder c)"
  using assms
proof (induction kv p c rule: wfN.induct)
  case (1 kv p a)
  then have "atLeaf (Some rn) (posCtx p)" by (simp add: atLeaf_posCtx IsLeaf_def)
  then have "moveToMaxDescendant d (Some rn) (posCtx p) = Inr (posCtx p)"
    by (simp add: moveToMaxDescendant.simps[of d "Some rn" "posCtx p"])
  with "1.prems" show ?case by (intro exI[of _ "[]"] exI[of _ a]) simp
next
  case (2 kv p ch r k)
  from "2.prems"(1) have len: "length ch = 96" and k: "0 < occupied ch"
    and kids: "\<forall>i < length ch. case ch ! i of None \<Rightarrow> True | Some c \<Rightarrow> wfN kv (p @ [int i]) c"
    using "2.prems"(3) by (auto simp: wfN.simps(2))
  have nal: "\<not> atLeaf (Some rn) (posCtx p)" using "2.prems"(2) by (simp add: atLeaf_posCtx IsLeaf_def)
  have b: "Base d - 1 < int (length (slots (Node ch r k)))" using len "2.prems"(4) by simp
  from occupied_pos[OF k] obtain i0 c0 where i0: "i0 < length ch" "ch ! i0 = Some c0" by blast
  from maxChild_char[OF "2.prems"(2) b] obtain j cj where
    j: "0 \<le> j" "j \<le> 95" "ch ! nat j = Some cj" "\<forall>x. nat j < x \<and> x < 96 \<longrightarrow> ch ! x = None"
    and mc: "maxChild (Some rn) (posCtx p) (Base d - 1) = Inr (posCtx (p @ [j]))"
    using "2.prems"(4) i0 len by auto
  have jl: "nat j < length ch" using j len by simp
  from kids jl j have wj: "wfN kv (p @ [int (nat j)]) cj" by (auto split: option.splits dest!: spec[of _ "nat j"])
  have lj: "lookup rn (p @ [int (nat j)]) = Some cj" using "2.prems"(2) j jl by (simp add: lookup_snoc)
  have jj: "int (nat j) = j" using j by simp
  from "2.IH"[OF jl j(3) wj lj _ "2.prems"(4)] obtain q a where
    q: "moveToMaxDescendant d (Some rn) (posCtx (p @ [j])) = Inr (posCtx ((p @ [j]) @ q))"
    "lookup rn ((p @ [j]) @ q) = Some (Leaf a)" "inorder cj \<noteq> []" "a = last (inorder cj)"
    unfolding jj by auto
  have m: "moveToMaxDescendant d (Some rn) (posCtx p) = Inr (posCtx (p @ j # q))"
    using nal mc q(1) by (simp add: moveToMaxDescendant.simps[of d "Some rn" "posCtx p"])
  have dr: "concat (map inorderO (drop (Suc (nat j)) ch)) = []"
    using concat_drop_None[of "Suc (nat j)" ch] j(4) len by auto
  have io: "inorder (Node ch r k) = concat (map inorderO (take (nat j) ch)) @ inorder cj"
    using concat_split_nth[OF jl, of inorderO] j(3) dr by simp
  show ?case
    apply (rule exI[of _ "j # q"], rule exI[of _ a])
    using m q io by simp
qed

lemma asLeaf_posCtx:
  "lookup rn p = Some (Leaf a) \<Longrightarrow> asLeaf (Some rn) (posCtx p) = Inr a"
  by (simp add: asLeaf_def)

text \<open>From a stored leaf, \<^verbatim>\<open>moveToPredecessor\<close> reaches the last leaf before it, if there is one.\<close>

lemma moveToPredecessor_char:
  assumes wf: "wfN kv [] rn" and lk: "lookup rn P = Some (Leaf a)" and fo: "follows (digitizer t) v 0 P"
    and b: "Base (digitizer t) = 96" and rt: "root t = Some rn"
  shows "(before rn P = [] \<and> (\<exists>s'. moveToPredecessor t (posCtx P) v Matched = Inr (False, s')))
       \<or> (before rn P \<noteq> [] \<and>
           (\<exists>s'. moveToPredecessor t (posCtx P) v Matched = Inr (True, s') \<and>
                 asLeaf (Some rn) s' = Inr (last (before rn P))))"
proof -
  have l0: "lookup (Leaf a) [] = Some (Leaf a)" by simp
  have fo': "follows (digitizer t) v 0 (P @ [])" using fo by simp
  have il: "([] :: path) = [] \<longrightarrow> IsLeaf (Leaf a)" by (simp add: IsLeaf_def)
  have bl: "below (Leaf a) [] = []" by (simp add: below_def)
  from retrace_char[OF lk l0 fo' il bl] show ?thesis
  proof
    assume "retraceToLastLeftFork (digitizer t) (Some rn) (posCtx P) v = Inr (posCtx []) \<and> before rn (P @ []) = []"
    then show ?thesis using rt by (simp add: moveToPredecessor_def)
  next
    assume "\<exists>p' j c X. retraceToLastLeftFork (digitizer t) (Some rn) (posCtx P) v = Inr (posCtx (p' @ [j])) \<and>
             lookup rn (p' @ [j]) = Some c \<and> before rn (P @ []) = X @ inorder c"
    then obtain p' j c X where r: "retraceToLastLeftFork (digitizer t) (Some rn) (posCtx P) v = Inr (posCtx (p' @ [j]))"
      and lc: "lookup rn (p' @ [j]) = Some c" and bf: "before rn P = X @ inorder c"
      by auto
    from wfN_lookup[OF wf lc] have wc: "wfN kv (p' @ [j]) c" by simp
    from moveToMaxDescendant_char[OF wc lc _ b] obtain q a' where
      m: "moveToMaxDescendant (digitizer t) (Some rn) (posCtx (p' @ [j])) = Inr (posCtx ((p' @ [j]) @ q))"
      and la: "lookup rn ((p' @ [j]) @ q) = Some (Leaf a')" and ne: "inorder c \<noteq> []"
      and a': "a' = last (inorder c)"
      by auto
    have lst: "last (before rn P) = a'" using bf ne a' by simp
    have nb: "before rn P \<noteq> []" using bf ne by simp
    show ?thesis
    proof (cases "IsLeaf c")
      case True
      then obtain b where c: "c = Leaf b" by (cases c) (auto simp: IsLeaf_def)
      with a' have "a' = b" by simp
      with c lc have al: "asLeaf (Some rn) (posCtx (p' @ [j])) = Inr a'" by (simp add: asLeaf_posCtx)
      have "atLeaf (Some rn) (posCtx (p' @ [j]))" using lc True by (simp add: atLeaf_posCtx)
      with r rt have "moveToPredecessor t (posCtx P) v Matched = Inr (True, posCtx (p' @ [j]))"
        by (simp add: moveToPredecessor_def)
      with al lst nb show ?thesis by auto
    next
      case False
      then have "\<not> atLeaf (Some rn) (posCtx (p' @ [j]))" using lc by (simp add: atLeaf_posCtx)
      with r rt m have "moveToPredecessor t (posCtx P) v Matched = Inr (True, posCtx ((p' @ [j]) @ q))"
        by (simp add: moveToPredecessor_def)
      moreover have "asLeaf (Some rn) (posCtx ((p' @ [j]) @ q)) = Inr a'" using la by (rule asLeaf_posCtx)
      ultimately show ?thesis using lst nb by auto
    qed
  qed
qed

section \<open>The overlay list\<close>

text \<open>
  \<open>dchain cs u xs t\<close>: following the next links from \<open>u\<close> visits \<open>xs\<close> and then \<open>t\<close>, and the
  previous link of every element of \<open>xs\<close> points back.
\<close>

fun dchain :: "'d store \<Rightarrow> addr \<Rightarrow> addr list \<Rightarrow> addr \<Rightarrow> bool" where
  "dchain cs u [] t = (next (cs ! u) = Some t)"
| "dchain cs u (x # xs) t = (next (cs ! u) = Some x \<and> previous (cs ! x) = Some u \<and> dchain cs x xs t)"

lemma dchain_append:
  "dchain cs u (xs @ y # ys) t =
     (dchain cs u xs y \<and> previous (cs ! y) = Some (last (u # xs)) \<and> dchain cs y ys t)"
  by (induction xs arbitrary: u) auto

lemma dchain_frame:
  "(\<forall>x \<in> set (u # xs). next (cs' ! x) = next (cs ! x)) \<Longrightarrow>
   (\<forall>x \<in> set xs. previous (cs' ! x) = previous (cs ! x)) \<Longrightarrow>
   dchain cs' u xs t = dchain cs u xs t"
  by (induction xs arbitrary: u) auto

lemma dchain_retarget:
  "dchain cs u xs t \<Longrightarrow> next (cs' ! last (u # xs)) = Some t' \<Longrightarrow>
   (\<forall>x \<in> set (butlast (u # xs)). next (cs' ! x) = next (cs ! x)) \<Longrightarrow>
   (\<forall>x \<in> set xs. previous (cs' ! x) = previous (cs ! x)) \<Longrightarrow>
   dchain cs' u xs t'"
  by (induction xs arbitrary: u) (auto split: if_splits)

lemma dchain_next_last: "dchain cs u xs t \<Longrightarrow> next (cs ! last (u # xs)) = Some t"
  by (induction xs arbitrary: u) auto

lemma in_butlast_neq_last: "distinct xs \<Longrightarrow> x \<in> set (butlast xs) \<Longrightarrow> x \<noteq> last xs"
proof (cases "xs = []")
  case True
  assume "x \<in> set (butlast xs)"
  with True show ?thesis by simp
next
  case False
  assume d: "distinct xs" and x: "x \<in> set (butlast xs)"
  from False have "xs = butlast xs @ [last xs]" by simp
  with d have "distinct (butlast xs @ [last xs])" by simp
  then have "last xs \<notin> set (butlast xs)" by simp
  with x show ?thesis by auto
qed

lemma nth_update_field:
  "(\<And>y. f (g y) = f y) \<Longrightarrow> f (cs[a := g (cs ! a)] ! b) = f (cs ! b)"
  by (cases "a < length cs"; cases "b = a") (simp_all add: list_update_beyond)

lemma SetNext_simps [simp]:
  "length (SetNext cs a x) = length cs"
  "a < length cs \<Longrightarrow> next (SetNext cs a x ! a) = x"
  "b \<noteq> a \<Longrightarrow> SetNext cs a x ! b = cs ! b"
  "previous (SetNext cs a x ! b) = previous (cs ! b)"
  "lvalue (SetNext cs a x ! b) = lvalue (cs ! b)"
  "isHead (SetNext cs a x ! b) = isHead (cs ! b)"
  "isTail (SetNext cs a x ! b) = isTail (cs ! b)"
  by (simp_all add: SetNext_def nth_update_field[where g="\<lambda>c. c\<lparr>next := x\<rparr>"])

lemma SetPrevious_simps [simp]:
  "length (SetPrevious cs a x) = length cs"
  "a < length cs \<Longrightarrow> previous (SetPrevious cs a x ! a) = x"
  "b \<noteq> a \<Longrightarrow> SetPrevious cs a x ! b = cs ! b"
  "next (SetPrevious cs a x ! b) = next (cs ! b)"
  "lvalue (SetPrevious cs a x ! b) = lvalue (cs ! b)"
  "isHead (SetPrevious cs a x ! b) = isHead (cs ! b)"
  "isTail (SetPrevious cs a x ! b) = isTail (cs ! b)"
  by (simp_all add: SetPrevious_def nth_update_field[where g="\<lambda>c. c\<lparr>previous := x\<rparr>"])

text \<open>The fields of the leaf objects that the links do not touch.\<close>

definition sameData :: "'d store \<Rightarrow> 'd store \<Rightarrow> bool" where
  "sameData cs' cs =
     (length cs' = length cs \<and>
      (\<forall>b. lvalue (cs' ! b) = lvalue (cs ! b) \<and> isHead (cs' ! b) = isHead (cs ! b) \<and>
           isTail (cs' ! b) = isTail (cs ! b)))"

lemma AddAfter_chain:
  assumes ch: "dchain cs h (B @ A) t"
    and di: "distinct (h # B @ A @ [t])" and a: "a \<notin> set (h # B @ A @ [t])"
    and ra: "a < length cs" "\<forall>x \<in> set (h # B @ A @ [t]). x < length cs"
  shows "\<exists>cs'. AddAfter cs a (last (h # B)) = Inr cs' \<and> dchain cs' h (B @ a # A) t \<and>
               sameData cs' cs \<and>
               previous (cs' ! t) = (if A = [] then Some a else previous (cs ! t))"
proof -
  let ?pv = "last (h # B)"
  let ?n = "hd (A @ [t])"
  have pvB: "?pv \<in> set (h # B)" by (rule last_in_set) simp
  have pn: "next (cs ! ?pv) = Some ?n"
  proof (cases A)
    case Nil
    with ch dchain_next_last[of cs h B t] show ?thesis by simp
  next
    case (Cons y ys)
    with ch have "dchain cs h B y" by (simp add: dchain_append)
    from dchain_next_last[OF this] Cons show ?thesis by simp
  qed
  have pva: "?pv \<noteq> a" using a pvB by auto
  have pvl: "?pv < length cs" using ra(2) pvB by auto
  have nin: "?n \<in> set (A @ [t])" by (rule hd_in_set) simp
  have na: "?n \<noteq> a" using a nin by auto
  have nl: "?n < length cs" using ra(2) nin by auto
  have npv: "?n \<noteq> ?pv" using di pvB nin by auto
  define cs1 where "cs1 = SetNext cs a (next (cs ! ?pv))"
  define cs2 where "cs2 = SetNext cs1 ?pv (Some a)"
  define cs3 where "cs3 = SetPrevious cs2 a (Some ?pv)"
  define cs4 where "cs4 = SetPrevious cs3 ?n (Some a)"
  have n3: "next (cs3 ! a) = Some ?n"
    using pva ra(1) pn by (simp add: cs3_def cs2_def cs1_def)
  have aa: "AddAfter cs a ?pv = Inr cs4"
    using n3 by (simp add: AddAfter_def Let_def cs1_def cs2_def cs3_def cs4_def)
  have nx: "\<And>x. next (cs4 ! x) = (if x = ?pv then Some a else if x = a then Some ?n else next (cs ! x))"
    using pva ra(1) pvl pn by (auto simp: cs4_def cs3_def cs2_def cs1_def)
  have pr: "\<And>x. previous (cs4 ! x) = (if x = ?n then Some a else if x = a then Some ?pv else previous (cs ! x))"
    using na ra(1) nl by (auto simp: cs4_def cs3_def cs2_def cs1_def)
  have sd: "sameData cs4 cs" by (simp add: sameData_def cs4_def cs3_def cs2_def cs1_def)
  have hB: "dchain cs h B ?n"
  proof (cases A)
    case Nil
    with ch show ?thesis by simp
  next
    case (Cons y ys)
    with ch show ?thesis by (simp add: dchain_append)
  qed
  have c1: "dchain cs4 h B a"
  proof (rule dchain_retarget[OF hB])
    show "next (cs4 ! ?pv) = Some a" by (simp add: nx)
    show "\<forall>x \<in> set (butlast (h # B)). next (cs4 ! x) = next (cs ! x)"
    proof
      fix x assume x: "x \<in> set (butlast (h # B))"
      have "distinct (h # B)" using di by simp
      then have "x \<noteq> ?pv" using x by (rule in_butlast_neq_last)
      moreover have "x \<in> set (h # B)" using x by (rule in_set_butlastD)
      then have "x \<noteq> a" using a by auto
      ultimately show "next (cs4 ! x) = next (cs ! x)" by (simp add: nx)
    qed
    show "\<forall>x \<in> set B. previous (cs4 ! x) = previous (cs ! x)"
    proof
      fix x assume x: "x \<in> set B"
      then have "x \<noteq> ?n" using di nin by auto
      moreover have "x \<noteq> a" using a x by auto
      ultimately show "previous (cs4 ! x) = previous (cs ! x)" by (simp add: pr)
    qed
  qed
  have c2: "dchain cs4 a A t \<and> previous (cs4 ! t) = (if A = [] then Some a else previous (cs ! t))"
  proof (cases A)
    case Nil
    then show ?thesis using pva by (simp add: nx pr)
  next
    case (Cons y ys)
    with ch have yy: "dchain cs y ys t" by (simp add: dchain_append)
    have ny: "?n = y" using Cons by simp
    have "dchain cs4 y ys t = dchain cs y ys t"
    proof (rule dchain_frame)
      show "\<forall>x \<in> set (y # ys). next (cs4 ! x) = next (cs ! x)"
      proof
        fix x assume "x \<in> set (y # ys)"
        then have "x \<in> set A" using Cons by simp
        then have "x \<noteq> ?pv" "x \<noteq> a" using di pvB a by auto
        then show "next (cs4 ! x) = next (cs ! x)" by (simp add: nx)
      qed
      show "\<forall>x \<in> set ys. previous (cs4 ! x) = previous (cs ! x)"
      proof
        fix x assume "x \<in> set ys"
        then have "x \<noteq> y" "x \<noteq> a" using di a Cons by auto
        then show "previous (cs4 ! x) = previous (cs ! x)" using ny by (simp add: pr)
      qed
    qed
    moreover have "t \<noteq> y" "t \<noteq> a" using di a Cons by auto
    ultimately show ?thesis using yy Cons ny pva by (simp add: nx pr)
  qed
  have "dchain cs4 h (B @ a # A) t"
    using c1 c2 na by (auto simp: dchain_append pr)
  with aa sd c2 show ?thesis by blast
qed


lemma Remove_leaf_chain:
  assumes ch: "dchain cs h (B @ a # A) t"
    and di: "distinct (h # B @ a # A @ [t])"
    and ra: "\<forall>x \<in> set (h # B @ a # A @ [t]). x < length cs"
  shows "\<exists>cs'. Remove_leaf cs a = Inr cs' \<and> dchain cs' h (B @ A) t \<and> sameData cs' cs \<and>
               previous (cs' ! t) = (if A = [] then Some (last (h # B)) else previous (cs ! t))"
proof -
  let ?pv = "last (h # B)"
  let ?n = "hd (A @ [t])"
  from ch have hB: "dchain cs h B a" and pa: "previous (cs ! a) = Some ?pv" and aA: "dchain cs a A t"
    by (simp_all add: dchain_append)
  have pvB: "?pv \<in> set (h # B)" by (rule last_in_set) simp
  have nin: "?n \<in> set (A @ [t])" by (rule hd_in_set) simp
  have na: "next (cs ! a) = Some ?n" using aA by (cases A) auto
  have pva: "?pv \<noteq> a" using di pvB by auto
  have nna: "?n \<noteq> a" using di nin by auto
  have npv: "?n \<noteq> ?pv" using di pvB nin by auto
  have pvl: "?pv < length cs" using ra pvB by auto
  have nl: "?n < length cs" using ra nin by auto
  have al: "a < length cs" using ra by simp
  define cs1 where "cs1 = SetNext cs ?pv (next (cs ! a))"
  define cs2 where "cs2 = SetPrevious cs1 ?n (previous (cs1 ! a))"
  define cs3 where "cs3 = SetPrevious cs2 a None"
  have n1: "next (cs1 ! a) = Some ?n" using pva na by (simp add: cs1_def)
  have rl: "Remove_leaf cs a = Inr cs3"
    using pa n1 by (simp add: Remove_leaf_def Let_def cs1_def cs2_def cs3_def)
  have nx: "\<And>x. next (cs3 ! x) = (if x = ?pv then Some ?n else next (cs ! x))"
    using pvl na by (auto simp: cs3_def cs2_def cs1_def)
  have pr: "\<And>x. previous (cs3 ! x) = (if x = a then None else if x = ?n then Some ?pv else previous (cs ! x))"
    using al nl pa by (auto simp: cs3_def cs2_def cs1_def)
  have sd: "sameData cs3 cs" by (simp add: sameData_def cs3_def cs2_def cs1_def)
  have c1: "dchain cs3 h B ?n"
  proof (rule dchain_retarget[OF hB])
    show "next (cs3 ! ?pv) = Some ?n" by (simp add: nx)
    show "\<forall>x \<in> set (butlast (h # B)). next (cs3 ! x) = next (cs ! x)"
    proof
      fix x assume x: "x \<in> set (butlast (h # B))"
      have "distinct (h # B)" using di by simp
      then have "x \<noteq> ?pv" using x by (rule in_butlast_neq_last)
      then show "next (cs3 ! x) = next (cs ! x)" by (simp add: nx)
    qed
    show "\<forall>x \<in> set B. previous (cs3 ! x) = previous (cs ! x)"
    proof
      fix x assume x: "x \<in> set B"
      then have "x \<noteq> ?n" "x \<noteq> a" using di nin by auto
      then show "previous (cs3 ! x) = previous (cs ! x)" by (simp add: pr)
    qed
  qed
  have "dchain cs3 h (B @ A) t \<and>
        previous (cs3 ! t) = (if A = [] then Some ?pv else previous (cs ! t))"
  proof (cases A)
    case Nil
    with c1 di show ?thesis by (simp add: pr)
  next
    case (Cons y ys)
    with aA have yy: "dchain cs y ys t" and py: "previous (cs ! y) = Some a" by simp_all
    have ny: "?n = y" using Cons by simp
    have "dchain cs3 y ys t = dchain cs y ys t"
    proof (rule dchain_frame)
      show "\<forall>x \<in> set (y # ys). next (cs3 ! x) = next (cs ! x)"
      proof
        fix x assume "x \<in> set (y # ys)"
        then have "x \<in> set A" using Cons by simp
        then have "x \<noteq> ?pv" using di pvB by auto
        then show "next (cs3 ! x) = next (cs ! x)" by (simp add: nx)
      qed
      show "\<forall>x \<in> set ys. previous (cs3 ! x) = previous (cs ! x)"
      proof
        fix x assume "x \<in> set ys"
        then have "x \<noteq> y" "x \<noteq> a" using di Cons by auto
        then show "previous (cs3 ! x) = previous (cs ! x)" using ny by (simp add: pr)
      qed
    qed
    moreover have "t \<noteq> y" "t \<noteq> a" using di Cons by auto
    moreover have "y \<noteq> a" using di Cons by auto
    ultimately show ?thesis using yy Cons ny c1 by (simp add: dchain_append pr)
  qed
  with rl sd show ?thesis by blast
qed

text \<open>
  The sentinels are the first two leaf objects of the store, and no other leaf object is
  flagged as head or tail.
\<close>

definition storeOk :: "'d store \<Rightarrow> bool" where
  "storeOk cs =
     (2 \<le> length cs \<and> isHead (cs ! 0) \<and> \<not> isTail (cs ! 0) \<and> isTail (cs ! 1) \<and> \<not> isHead (cs ! 1) \<and>
      (\<forall>a. 2 \<le> a \<and> a < length cs \<longrightarrow> \<not> isHead (cs ! a) \<and> \<not> isTail (cs ! a)))"

text \<open>The walk of \<^verbatim>\<open>Entries\<close> along a chain.\<close>

lemma entriesLoop_chain:
  assumes "dchain cs u xs 1" and "storeOk cs" and "\<forall>x \<in> set xs. 2 \<le> x \<and> x < length cs"
    and "\<not> isTail (cs ! u)" and "isHead (cs ! u) \<or> previous (cs ! u) \<noteq> None"
  shows "entriesLoop cs u acc = Some (Inr (acc @ map (\<lambda>x. lvalue (cs ! x)) xs), cs)"
  using assms
proof (induction xs arbitrary: u acc)
  case Nil
  then have "advance cs u = Some (Inr (False, 1, cs))"
    by (auto simp: advance_def IsDeleted_def storeOk_def)
  then show ?case by (simp add: entriesLoop.simps[of cs u acc])
next
  case (Cons x xs)
  then have x: "2 \<le> x" "x < length cs" "\<not> isHead (cs ! x)" "\<not> isTail (cs ! x)"
    "previous (cs ! x) = Some u" "next (cs ! u) = Some x"
    by (auto simp: storeOk_def)
  have adv: "advance cs u = Some (Inr (True, x, cs))"
    using Cons.prems(4,5) x by (auto simp: advance_def IsDeleted_def)
  have g: "get cs x = Inr (lvalue (cs ! x))"
    using x by (simp add: get_def inCollection_def IsDeleted_def)
  have "entriesLoop cs x (acc @ [lvalue (cs ! x)]) =
          Some (Inr ((acc @ [lvalue (cs ! x)]) @ map (\<lambda>x. lvalue (cs ! x)) xs), cs)"
    using Cons.prems x by (intro Cons.IH) auto
  with adv g show ?case by (simp add: entriesLoop.simps[of cs u acc])
qed

section \<open>Order of the leaves\<close>

text \<open>The digit path of the key of a leaf object.\<close>

definition pathOf :: "(addr \<Rightarrow> string option) \<Rightarrow> addr \<Rightarrow> path" where
  "pathOf kv a = keyPath (the (kv a))"

lemma sorted_wrt_concat:
  assumes "\<And>i. i < length xss \<Longrightarrow> sorted_wrt R (xss ! i)"
    and "\<And>i j x y. i < j \<Longrightarrow> j < length xss \<Longrightarrow> x \<in> set (xss ! i) \<Longrightarrow> y \<in> set (xss ! j) \<Longrightarrow> R x y"
  shows "sorted_wrt R (concat xss)"
  using assms
proof (induction xss rule: rev_induct)
  case Nil
  then show ?case by simp
next
  case (snoc xs xss)
  have 1: "sorted_wrt R (concat xss)"
  proof (rule snoc.IH)
    fix i assume "i < length xss"
    then show "sorted_wrt R (xss ! i)" using snoc.prems(1)[of i] by (simp add: nth_append)
  next
    fix i j x y assume "i < j" "j < length xss" "x \<in> set (xss ! i)" "y \<in> set (xss ! j)"
    then show "R x y" using snoc.prems(2)[of i j x y] by (simp add: nth_append)
  qed
  have 2: "sorted_wrt R xs" using snoc.prems(1)[of "length xss"] by simp
  have 3: "\<forall>x \<in> set (concat xss). \<forall>y \<in> set xs. R x y"
  proof (intro ballI)
    fix x y assume "x \<in> set (concat xss)" and y: "y \<in> set xs"
    then obtain zs where "zs \<in> set xss" "x \<in> set zs" by auto
    then obtain i where "i < length xss" "x \<in> set (xss ! i)"
      by (metis in_set_conv_nth)
    then show "R x y" using snoc.prems(2)[of i "length xss" x y] y by (simp add: nth_append)
  qed
  from 1 2 3 show ?case by (simp add: sorted_wrt_append)
qed

lemma wfN_sorted:
  "wfN kv p n \<Longrightarrow> sorted_wrt (\<lambda>a b. ord_class.lexordp (pathOf kv a) (pathOf kv b)) (inorder n)"
proof (induction kv p n rule: wfN.induct)
  case (1 kv p b)
  then show ?case by simp
next
  case (2 kv p ch r k)
  let ?R = "\<lambda>a b. ord_class.lexordp (pathOf kv a) (pathOf kv b)"
  have w: "\<And>i c. i < length ch \<Longrightarrow> ch ! i = Some c \<Longrightarrow> wfN kv (p @ [int i]) c"
    using "2.prems" by (auto simp: wfN.simps(2) split: option.splits)
  have "sorted_wrt ?R (concat (map inorderO ch))"
  proof (rule sorted_wrt_concat)
    fix i assume i: "i < length (map inorderO ch)"
    show "sorted_wrt ?R (map inorderO ch ! i)"
    proof (cases "ch ! i")
      case None
      with i show ?thesis by simp
    next
      case (Some c)
      from i have i': "i < length ch" by simp
      from "2.IH"[OF i' Some w[OF i' Some]] i' Some show ?thesis by simp
    qed
  next
    fix i j x y
    assume ij: "i < j" and j: "j < length (map inorderO ch)"
      and x: "x \<in> set (map inorderO ch ! i)" and y: "y \<in> set (map inorderO ch ! j)"
    from ij j have i': "i < length ch" and j': "j < length ch" by simp_all
    from x i' obtain c where c: "ch ! i = Some c" "x \<in> set (inorder c)" by (cases "ch ! i") auto
    from y j' obtain c' where c': "ch ! j = Some c'" "y \<in> set (inorder c')" by (cases "ch ! j") auto
    from wfN_leaf_at[OF w[OF i' c(1)] c(2)] obtain v q where
      v: "kv x = Some v" "(p @ [int i]) @ q = keyPath v" by blast
    from wfN_leaf_at[OF w[OF j' c'(1)] c'(2)] obtain v' q' where
      v': "kv y = Some v'" "(p @ [int j]) @ q' = keyPath v'" by blast
    have "ord_class.lexordp (p @ int i # q) (p @ int j # q')"
      using ij by (intro lexordp_append_left_rightI) simp
    with v v' show "?R x y" by (simp add: pathOf_def)
  qed
  then show ?case by simp
qed

lemma sorted_wrt_irrefl_distinct:
  "sorted_wrt R xs \<Longrightarrow> (\<And>x. \<not> R x x) \<Longrightarrow> distinct xs"
  by (induction xs) auto

lemma wfN_distinct: "wfN kv p n \<Longrightarrow> distinct (inorder n)"
  by (rule sorted_wrt_irrefl_distinct[OF wfN_sorted]) (auto simp: lexordp_irreflexive)

lemma wfN_leaf_range: "wfN (keyAt cs) p n \<Longrightarrow> a \<in> set (inorder n) \<Longrightarrow> 2 \<le> a \<and> a < length cs"
  by (drule (1) wfN_leaf_at) (auto simp: keyAt_def split: if_splits)

lemma code_inj: "code c = code c' \<Longrightarrow> c = c'"
  by (simp add: code_def)

lemma keyPath_inj: "keyPath v = keyPath v' \<Longrightarrow> v = v'"
proof -
  assume "keyPath v = keyPath v'"
  then have "map code v = map code v'" by (simp add: keyPath_def)
  moreover have "inj code" by (rule injI) (rule code_inj)
  ultimately show ?thesis by (simp add: inj_map_eq_map)
qed

text \<open>The digits of a key, as the digitizer gives them.\<close>

definition digitsOf :: "digitizer \<Rightarrow> string \<Rightarrow> int list" where
  "digitsOf d v =
     map (\<lambda>i. case DigitOf d v (int i) of Inl e \<Rightarrow> - 1 | Inr x \<Rightarrow> x) [0..<nat (NumDigitsOf d v)]"

lemma digitsOf_keyPath: "goodKey v \<Longrightarrow> digitsOf ascii v = keyPath v"
proof (rule nth_equalityI)
  assume g: "goodKey v"
  show "length (digitsOf ascii v) = length (keyPath v)" by (simp add: digitsOf_def)
  fix i assume "i < length (digitsOf ascii v)"
  then have i: "i \<le> length v" by (simp add: digitsOf_def)
  show "digitsOf ascii v ! i = keyPath v ! i"
  proof (cases "i < length v")
    case True
    then show ?thesis using asciiDigitOf_good[OF g True]
      by (simp add: digitsOf_def keyPath_def nth_append)
  next
    case False
    with i have "i = length v" by simp
    moreover from g have "TrimSpace v = v" by (simp add: goodKey_def)
    ultimately show ?thesis using asciiDigitOf_end[of v "int (length v)"]
      by (simp add: digitsOf_def keyPath_def nth_append)
  qed
qed

section \<open>Pruning\<close>

lemma after_Nil [simp]: "after m [] = []"
  by (cases m) simp_all

lemma occupied_zero: "occupied ch = 0 \<Longrightarrow> j < length ch \<Longrightarrow> ch ! j = None"
  by (auto simp: occupied_def filter_empty_conv)

lemma inorder_without:
  "i < length ch \<Longrightarrow>
   concat (map inorderO (ch[i := None])) =
     concat (map inorderO (take i ch)) @ concat (map inorderO (drop (Suc i) ch))"
  using concat_split_nth[of i "ch[i := None]" inorderO]
  by (simp add: concat_take_update concat_drop_update)

lemma removeLoop_char:
  assumes "wfN kv [] W" and "lookup W q = Some c" and "q \<noteq> []"
    and "follows d v 0 q" and "\<not> IsRoot x" and "\<not> HasChildren x"
  shows "\<exists>T. removeLoop d (Some (replaceAt W q x)) v q (int (length q)) = (None, Some T) \<and>
             wfN kv [] T \<and> inorder T = before W q @ after W q \<and> (\<forall>r. lookup T (q @ r) = None)"
  using assms
proof (induction q arbitrary: c x rule: rev_induct)
  case Nil
  then show ?case by simp
next
  case (snoc i q')
  note wf = snoc.prems(1)
  from snoc.prems(2) obtain m where m: "lookup W q' = Some m" and mc: "lookup m [i] = Some c"
    by (auto simp: lookup_append split: option.splits)
  from lookup_Cons_Some[OF mc] obtain c' where
    i: "0 \<le> i" "nat i < length (slots m)" and c': "slots m ! nat i = Some c'" by blast
  then obtain ch r k where mN: "m = Node ch r k" by (cases m) auto
  from i c' mN have ich: "nat i < length ch" and chi: "ch ! nat i = Some c'" by simp_all
  from mc mN i chi have cc: "c' = c" by simp
  from wfN_lookup[OF wf m] mN have wm: "wfN kv q' (Node ch r k)" by simp
  then have len: "length ch = 96" and rr: "r \<longleftrightarrow> q' = []" and kk: "k = int (occupied ch)"
    and kp: "q' \<noteq> [] \<longrightarrow> 0 < k" and z: "0 \<notin> set q'"
    and kids: "\<forall>j < length ch. case ch ! j of None \<Rightarrow> True | Some c \<Rightarrow> wfN kv (q' @ [int j]) c"
    by (auto simp: wfN.simps(2))
  let ?ch = "ch[nat i := None]"
  let ?y = "Node ?ch r (k - 1)"
  let ?T0 = "replaceAt W (q' @ [i]) x"
  have occ: "int (occupied ?ch) = k - 1"
    using occupied_update[of "nat i" ch None] ich chi kk by simp
  have T0: "?T0 = replaceAt W q' (Node (ch[nat i := Some x]) r k)"
    using replaceAt_replaceAt[OF m, of "Node ch r k" "[i]" x] replaceAt_id[OF m] mN i chi by simp
  have l0: "lookup ?T0 (q' @ [i]) = Some x"
    using lookup_replaceAt[OF snoc.prems(2), of x "[]"] by simp
  have l1: "lookup ?T0 q' = Some (Node (ch[nat i := Some x]) r k)"
    using lookup_replaceAt[OF m, of "Node (ch[nat i := Some x]) r k" "[]"] T0 by simp
  have dg: "DigitOf d v (int (length q')) = Inr i"
    using snoc.prems(4) by (simp add: follows_append)
  have rc: "RemoveChildAt (Node (ch[nat i := Some x]) r k) i = Inr (True, ?y)"
    using i ich by (simp add: checkBounds_def)
  have T1: "replaceAt ?T0 q' ?y = replaceAt W q' ?y"
    using replaceAt_replaceAt[OF m, of "Node (ch[nat i := Some x]) r k" "[]" ?y] T0 by simp
  have step: "removeLoop d (Some ?T0) v (q' @ [i]) (int (length (q' @ [i]))) =
                removeLoop d (Some (replaceAt W q' ?y)) v q' (int (length q'))"
    using l0 l1 dg rc T1 snoc.prems(5,6)
    by (subst removeLoop.simps) (simp add: deref_def)
  have ly: "lookup (replaceAt W q' ?y) q' = Some ?y"
    using lookup_replaceAt[OF m, of ?y "[]"] by simp
  have bq: "before W (q' @ [i]) = before W q' @ concat (map inorderO (take (nat i) ch))"
    using before_append[OF m, of "[i]"] mN i ich chi by simp
  have aq: "after W (q' @ [i]) = concat (map inorderO (drop (Suc (nat i)) ch)) @ after W q'"
    using after_append[OF m, of "[i]"] mN i ich chi by simp
  show ?case
  proof (cases "r \<or> 0 < k - 1")
    case True
    have stop: "removeLoop d (Some (replaceAt W q' ?y)) v q' (int (length q')) =
                  (None, Some (replaceAt W q' ?y))"
      using ly True by (subst removeLoop.simps) (auto simp: deref_def IsRoot_def HasChildren_def)
    have kids': "\<forall>j < length ?ch. case ?ch ! j of None \<Rightarrow> True | Some c \<Rightarrow> wfN kv (q' @ [int j]) c"
    proof (intro allI impI)
      fix j assume "j < length ?ch"
      then show "case ?ch ! j of None \<Rightarrow> True | Some c \<Rightarrow> wfN kv (q' @ [int j]) c"
        using kids by (cases "j = nat i") auto
    qed
    have wy: "wfN kv ([] @ q') ?y"
      using len rr occ z kids' True by (auto simp: wfN.simps(2))
    have wT: "wfN kv [] (replaceAt W q' ?y)"
      by (rule wfN_replaceAt[OF wf m wy])
    have io: "inorder (replaceAt W q' ?y) = before W (q' @ [i]) @ after W (q' @ [i])"
      using inorder_replaceAt[OF m, of ?y] inorder_without[OF ich] bq aq by simp
    have none: "\<forall>t. lookup (replaceAt W q' ?y) ((q' @ [i]) @ t) = None"
    proof
      fix t
      have "lookup (replaceAt W q' ?y) (q' @ (i # t)) = lookup ?y (i # t)"
        by (rule lookup_replaceAt[OF m])
      then show "lookup (replaceAt W q' ?y) ((q' @ [i]) @ t) = None" using i ich by simp
    qed
    from step stop wT io none show ?thesis by auto
  next
    case False
    then have nr: "\<not> r" and k1: "k = 1" using rr kp by auto
    from nr rr have q'ne: "q' \<noteq> []" by simp
    have dy: "\<not> IsRoot ?y" "\<not> HasChildren ?y" using nr k1 by (simp_all add: IsRoot_def HasChildren_def)
    have fo: "follows d v 0 q'" using snoc.prems(4) by (simp add: follows_append)
    from snoc.IH[OF wf m q'ne fo dy] obtain T where
      T: "removeLoop d (Some (replaceAt W q' ?y)) v q' (int (length q')) = (None, Some T)"
         "wfN kv [] T" "inorder T = before W q' @ after W q'" "\<forall>t. lookup T (q' @ t) = None"
      by blast
    have o0: "occupied ?ch = 0" using occ k1 by simp
    have emp: "\<And>j. j < length ch \<Longrightarrow> j \<noteq> nat i \<Longrightarrow> ch ! j = None"
    proof -
      fix j assume j: "j < length ch" "j \<noteq> nat i"
      then have "?ch ! j = None" using occupied_zero[OF o0, of j] by simp
      with j show "ch ! j = None" by simp
    qed
    have tk: "concat (map inorderO (take (nat i) ch)) = []"
      using emp ich by (intro concat_take_None) auto
    have dr: "concat (map inorderO (drop (Suc (nat i)) ch)) = []"
      using emp by (intro concat_drop_None) auto
    have "\<forall>t. lookup T ((q' @ [i]) @ t) = None" using T(4) by simp
    with step T bq aq tk dr show ?thesis by auto
  qed
qed

section \<open>The invariant of the trie\<close>

text \<open>
  \<open>leaves t\<close> are the leaf objects of the node tree, left to right.  The invariant: the trie
  has the ASCII digitizer and its two sentinels; the node tree is well formed; the overlay
  list links the head, the leaves of the tree in their order, and the tail; the tail
  points back to the last leaf; \<^verbatim>\<open>size\<close> is the number of leaves.
\<close>

definition leaves :: "'d trie \<Rightarrow> addr list" where
  "leaves t = inorderO (root t)"

definition INV :: "'d trie \<Rightarrow> bool" where
  "INV t =
     (digitizer t = ascii \<and> head t = 0 \<and> tail t = 1 \<and> storeOk (cells t) \<and>
      size' t = int (length (leaves t)) \<and> dchain (cells t) 0 (leaves t) 1 \<and>
      (leaves t \<noteq> [] \<longrightarrow> previous (cells t ! 1) = Some (last (leaves t))) \<and>
      (case root t of None \<Rightarrow> True | Some rn \<Rightarrow> wfN (keyAt (cells t)) [] rn))"

lemma keyAt_sameData: "sameData cs' cs \<Longrightarrow> keyAt cs' = keyAt cs"
  by (rule ext) (simp add: keyAt_def sameData_def)

lemma storeOk_sameData: "sameData cs' cs \<Longrightarrow> storeOk cs \<Longrightarrow> storeOk cs'"
  by (simp add: storeOk_def sameData_def)

lemma follows_nth:
  "follows d v k q \<Longrightarrow> j < length q \<Longrightarrow> DigitOf d v (int (k + j)) = Inr (q ! j)"
proof (induction q arbitrary: k j)
  case Nil
  then show ?case by simp
next
  case (Cons i q)
  show ?case
  proof (cases j)
    case 0
    with Cons.prems show ?thesis by simp
  next
    case (Suc j')
    with Cons.prems have "DigitOf d v (int (Suc k + j')) = Inr (q ! j')"
      by (intro Cons.IH) simp_all
    with Suc show ?thesis by simp
  qed
qed

text \<open>A path of digits of \<open>v\<close> without the end marker is not longer than \<open>v\<close>.\<close>

lemma follows_no_end:
  assumes "follows ascii v 0 q" and "TrimSpace v = v" and "0 \<notin> set q"
  shows "length q \<le> length v"
proof (rule ccontr)
  assume "\<not> length q \<le> length v"
  then have l: "length v < length q" by simp
  from follows_nth[OF assms(1) l] have "asciiDigitOf 96 v (int (length v)) = Inr (q ! length v)"
    by simp
  with asciiDigitOf_end[OF assms(2), of "int (length v)"] have "q ! length v = 0" by simp
  with l assms(3) show False by (metis nth_mem)
qed

text \<open>A path of digits of \<open>v\<close> that is the path of a key is the path of \<open>v\<close>.\<close>

lemma follows_key:
  assumes fo: "follows ascii v 0 (keyPath v')" and tr: "TrimSpace v = v" and g: "goodKey v'"
  shows "v' = v"
proof -
  have z: "0 \<notin> set (butlast (keyPath v'))"
    using keyPath_digits(3)[OF g, of "keyPath v'" "[]"] by simp
  have bl: "butlast (keyPath v') = map code v'" by (simp add: keyPath_def)
  have fb: "follows ascii v 0 (map code v')"
    using fo by (simp add: keyPath_def follows_append)
  from follows_no_end[OF fb tr] z bl have le: "length v' \<le> length v" by simp
  have "\<not> length v' < length v"
  proof
    assume lt: "length v' < length v"
    have "length v' < length (keyPath v')" by simp
    from follows_nth[OF fo this] have d: "asciiDigitOf 96 v (int (length v')) = Inr 0"
      by (simp add: keyPath_def nth_append)
    from asciiDigitOf_Inr[OF tr _ _ d] lt show False by simp
  qed
  with le have len: "length v' = length v" by simp
  show ?thesis
  proof (rule nth_equalityI[OF len])
    fix j assume j: "j < length v'"
    then have "j < length (keyPath v')" by simp
    from follows_nth[OF fo this] j have d: "asciiDigitOf 96 v (int j) = Inr (code (v' ! j))"
      by (simp add: keyPath_def nth_append)
    from asciiDigitOf_Inr[OF tr _ _ d] j len have "code (v' ! j) = code (v ! j)" by simp
    then show "v' ! j = v ! j" by (rule code_inj)
  qed
qed

lemma prepareSearch_root [simp]:
  "root t = Some rn \<Longrightarrow> prepareSearch t acquireSearchContext = posCtx []"
  by (simp add: prepareSearch_def acquireSearchContext_def posCtx_def)

lemma lookup_leaf_in:
  "lookup rn q = Some (Leaf a) \<Longrightarrow> a \<in> set (inorder rn)"
  by (drule inorder_split) simp

text \<open>Searching a stored key.\<close>

lemma find_stored:
  assumes inv: "INV t" and a: "a \<in> set (leaves t)" and kv: "keyAt (cells t) a = Some v"
  shows "\<exists>rn. root t = Some rn \<and> lookup rn (keyPath v) = Some (Leaf a) \<and> goodKey v \<and>
              find t acquireSearchContext v = Inr (Matched, posCtx (keyPath v))"
proof -
  from a obtain rn where rn: "root t = Some rn" by (cases "root t") (auto simp: leaves_def)
  with inv have wf: "wfN (keyAt (cells t)) [] rn" and d: "digitizer t = ascii"
    and sz: "size' t = int (length (leaves t))"
    by (simp_all add: INV_def)
  from a rn have "a \<in> set (inorder rn)" by (simp add: leaves_def)
  from wfN_leaf_at[OF wf this] kv obtain q where
    g: "goodKey v" and l: "lookup rn q = Some (Leaf a)" and q: "q = keyPath v" by auto
  from g have tr: "TrimSpace v = v" and ne: "v \<noteq> []" by (simp_all add: goodKey_def)
  from a sz have nz: "\<not> IsEmpty t" by (auto simp: IsEmpty_def Len_def)
  have "findLoop ascii (Some rn) v (int (length v) + 1) (posCtx []) = Inr (Matched, posCtx ([] @ keyPath v))"
    using l q follows_keyPath[OF g]
    by (intro findLoop_to_leaf[where m = rn and a = a]) simp_all
  then have "find t acquireSearchContext v = Inr (Matched, posCtx (keyPath v))"
    using tr ne nz rn d by (simp add: find_def)
  with rn l q g show ?thesis by simp
qed

text \<open>What a search can answer on a well-formed tree.\<close>

lemma findLoop_wf:
  assumes wf: "wfN kv [] rn" and tr: "TrimSpace v = v"
    and fl: "findLoop ascii (Some rn) v (int (length v) + 1) (posCtx []) = Inr (res, s')"
  shows "(res = Matched \<and> s' = posCtx (keyPath v) \<and>
            (\<exists>a. lookup rn (keyPath v) = Some (Leaf a) \<and> kv a = Some v \<and> goodKey v))
       \<or> (res \<noteq> Matched \<and>
            (\<exists>q ch r k. s' = posCtx q \<and> lookup rn q = Some (Node ch r k) \<and> follows ascii v 0 q \<and>
                  length q \<le> length v))"
proof -
  from findLoop_char[OF fl, of rn] obtain q m' where
    s': "s' = posCtx q" and l: "lookup rn q = Some m'" and fo: "follows ascii v 0 q"
    and oc: "outcome ascii v (int (length v) + 1) res m' (length q)"
    by auto
  from wfN_lookup[OF wf l] have wm: "wfN kv q m'" by simp
  show ?thesis
  proof (cases m')
    case (Node ch r k)
    with wm have z: "0 \<notin> set q" by (simp add: wfN.simps(2))
    from follows_no_end[OF fo tr z] have le: "length q \<le> length v" .
    from oc Node le have "res \<noteq> Matched" by (auto simp: outcome_def IsLeaf_def)
    with s' l fo le Node show ?thesis by blast
  next
    case (Leaf a)
    with wm obtain v' where v': "kv a = Some v'" "goodKey v'" "keyPath v' = q"
      by (auto split: option.splits)
    from follows_key[OF _ tr v'(2)] fo v'(3) have "v' = v" by simp
    with v' have kv: "kv a = Some v" "goodKey v" "q = keyPath v" by simp_all
    from oc Leaf kv(3) have "res = Matched"
      by (cases res) (auto simp: outcome_def IsLeaf_def)
    with s' l Leaf kv show ?thesis by auto
  qed
qed

section \<open>Insertion keeps the invariant\<close>

lemma insert_tail:
  fixes t1 :: "'d trie"
  assumes d: "digitizer t1 = ascii" and rt: "root t1 = Some rn" and h: "head t1 = 0"
    and wf: "wfN (keyAt (cells t1)) [] rn" and lk: "lookup rn q = Some (Node ch r k)"
    and fo: "follows ascii v 0 q" and lq: "length q \<le> length v"
    and tr: "TrimSpace v = v" and ne: "v \<noteq> []"
    and a: "2 \<le> a" "a < length (cells t1)" "lvalue (cells t1 ! a) = Some e" "Value e = v"
           "a \<notin> set (inorder rn)"
    and ch: "dchain (cells t1) 0 (inorder rn) 1" and so: "storeOk (cells t1)"
    and an: "addNode t1 (posCtx q) a = (Inr ctx1, t2)"
  shows "\<exists>T B A m ctx2 pivot cs.
           t2 = t1\<lparr>root := Some T\<rparr> \<and> moveToPredecessor t2 ctx1 v Matched = Inr (m, ctx2) \<and>
           (if m then asLeaf (root t2) ctx2 else Inr (head t2)) = Inr pivot \<and>
           AddAfter (cells t2) a pivot = Inr cs \<and>
           wfN (keyAt cs) [] T \<and> inorder rn = B @ A \<and> inorder T = B @ a # A \<and>
           dchain cs 0 (B @ a # A) 1 \<and> sameData cs (cells t1) \<and>
           previous (cs ! 1) = (if A = [] then Some a else previous (cells t1 ! 1)) \<and>
           goodKey v \<and> lookup T (keyPath v) = Some (Leaf a)"
proof -
  have b: "Base (digitizer t1) = 96" by (simp add: d)
  have lt: "int (length q) < NumDigitsOf (digitizer t1) (Value e)" using lq a(4) by (simp add: d)
  from addNode_char[OF an b rt lk a(3) lt] obtain i Q where
    i: "0 \<le> i" "nat i < length ch" "ch ! nat i = None" and vQ: "validIx Q"
    and foQ: "follows ascii v (length q) (i # Q)"
    and len: "int (length (q @ i # Q)) = int (length v) + 1"
    and c1: "ctx1 = posCtx (q @ i # Q)"
    and t2: "t2 = t1\<lparr>root := Some (replaceAt rn q (graft (Node ch r k) (i # Q) (Leaf a)))\<rparr>"
    using a(4) by (auto simp: d)
  let ?P = "q @ i # Q"
  let ?T = "replaceAt rn q (graft (Node ch r k) (i # Q) (Leaf a))"
  let ?B = "leftOf rn q i"
  let ?A = "rightOf rn q i"
  have foP: "follows ascii v 0 ?P" using fo foQ by (simp add: follows_append)
  have lenP: "length ?P = Suc (length v)" using len by simp
  have chars: "\<forall>j < length v. 32 \<le> (of_char (v ! j) :: nat) \<and> (of_char (v ! j) :: nat) \<le> 126 \<and> j \<le> 96"
  proof (intro allI impI)
    fix j assume j: "j < length v"
    with lenP have "j < length ?P" by simp
    from follows_nth[OF foP this] have "asciiDigitOf 96 v (int j) = Inr (?P ! j)" by simp
    from asciiDigitOf_Inr[OF tr _ _ this] j
    show "32 \<le> (of_char (v ! j) :: nat) \<and> (of_char (v ! j) :: nat) \<le> 126 \<and> j \<le> 96" by simp
  qed
  have g: "goodKey v"
  proof -
    have "\<forall>c \<in> set v. 32 \<le> (of_char c :: nat) \<and> (of_char c :: nat) \<le> 126"
      using chars by (auto simp: in_set_conv_nth)
    moreover have "length v \<le> 97"
    proof -
      from ne have "length v - 1 < length v" by (cases v) simp_all
      with chars have "length v - 1 \<le> 96" by blast
      then show ?thesis by simp
    qed
    ultimately show ?thesis using tr ne by (simp add: goodKey_def)
  qed
  have kp: "keyPath v = ?P"
    using lenP by (intro follows_unique[OF follows_keyPath[OF g] foP]) simp
  have kv: "keyAt (cells t1) a = Some v" using a by (simp add: keyAt_def)
  have wT: "wfN (keyAt (cells t1)) [] ?T"
    by (rule graft_wf[OF wf lk i kv g kp])
  note gt = graft_tree[OF lk i vQ]
  have lT: "lookup ?T ?P = Some (Leaf a)" by (rule gt(1))
  have bT: "before ?T ?P = ?B" by (rule gt(4))
  have io: "inorder rn = ?B @ ?A" by (rule gt(3))
  have ioT: "inorder ?T = ?B @ a # ?A" using gt(2)[of a] by simp
  have d2: "digitizer t2 = ascii" and r2: "root t2 = Some ?T" and h2: "head t2 = 0"
    and c2: "cells t2 = cells t1"
    using t2 d h by simp_all
  have b2: "Base (digitizer t2) = 96" by (simp add: d2)
  have fo2: "follows (digitizer t2) v 0 ?P" using foP by (simp add: d2)
  have "\<exists>m ctx2. moveToPredecessor t2 ctx1 v Matched = Inr (m, ctx2) \<and>
           (if m then asLeaf (root t2) ctx2 else Inr (head t2)) = Inr (last (0 # ?B))"
  proof -
    from moveToPredecessor_char[OF wT lT fo2 b2 r2] show ?thesis
    proof (elim disjE conjE exE)
      fix s'
      assume "before ?T ?P = []" "moveToPredecessor t2 (posCtx ?P) v Matched = Inr (False, s')"
      then show ?thesis using bT c1 h2 by (intro exI[of _ False] exI[of _ s']) simp
    next
      fix s'
      assume "before ?T ?P \<noteq> []" "moveToPredecessor t2 (posCtx ?P) v Matched = Inr (True, s')"
        "asLeaf (Some ?T) s' = Inr (last (before ?T ?P))"
      then show ?thesis using bT c1 r2 by (intro exI[of _ True] exI[of _ s']) simp
    qed
  qed
  then obtain m ctx2 where mp: "moveToPredecessor t2 ctx1 v Matched = Inr (m, ctx2)"
    and pv: "(if m then asLeaf (root t2) ctx2 else Inr (head t2)) = Inr (last (0 # ?B))"
    by blast
  have rng: "\<forall>x \<in> set (inorder rn). 2 \<le> x \<and> x < length (cells t1)"
    using wfN_leaf_range[OF wf] by blast
  have dis: "distinct (inorder rn)" by (rule wfN_distinct[OF wf])
  have l2: "2 \<le> length (cells t1)" using so by (simp add: storeOk_def)
  have 1: "dchain (cells t1) 0 (?B @ ?A) 1" using ch io by simp
  have 2: "distinct (0 # ?B @ ?A @ [1])"
  proof -
    have "0 \<notin> set (inorder rn)" "1 \<notin> set (inorder rn)" using rng by auto
    with dis io show ?thesis by auto
  qed
  have 3: "a \<notin> set (0 # ?B @ ?A @ [1])"
  proof -
    have "a \<notin> set (?B @ ?A)" using a(5) io by simp
    with a(1) show ?thesis by auto
  qed
  have 4: "\<forall>x \<in> set (0 # ?B @ ?A @ [1]). x < length (cells t1)"
  proof -
    have "\<forall>x \<in> set (?B @ ?A). x < length (cells t1)" using rng io by simp
    with l2 show ?thesis by auto
  qed
  from AddAfter_chain[OF 1 2 3 a(2) 4] obtain cs where
    cs: "AddAfter (cells t1) a (last (0 # ?B)) = Inr cs" "dchain cs 0 (?B @ a # ?A) 1"
        "sameData cs (cells t1)"
        "previous (cs ! 1) = (if ?A = [] then Some a else previous (cells t1 ! 1))"
    by blast
  have wT': "wfN (keyAt cs) [] ?T" using wT keyAt_sameData[OF cs(3)] by simp
  show ?thesis
    using t2 mp pv cs c2 wT' io ioT g lT kp
    by (intro exI[of _ ?T] exI[of _ ?B] exI[of _ ?A] exI[of _ m] exI[of _ ctx2]
              exI[of _ "last (0 # ?B)"] exI[of _ cs]) simp
qed


lemma alloc_simps:
  fixes cs :: "'d store"
  shows "length (SetValue (cs @ [newLeaf]) (length cs) e) = Suc (length cs)"
    and "b < length cs \<Longrightarrow> SetValue (cs @ [newLeaf]) (length cs) e ! b = cs ! b"
    and "lvalue (SetValue (cs @ [newLeaf]) (length cs) e ! length cs) = e"
    and "\<not> isHead (SetValue (cs @ [newLeaf]) (length cs) e ! length cs)"
    and "\<not> isTail (SetValue (cs @ [newLeaf]) (length cs) e ! length cs)"
  by (simp_all add: SetValue_def newLeaf_def nth_append)

lemma AddEntry_INV:
  fixes t :: "'d trie"
  assumes inv: "INV t" and tr: "TrimSpace v = v" and ok: "AddEntry t (Some (Entry v dd)) = (None, t')"
  shows "INV t' \<and> (\<exists>B A. leaves t = B @ A \<and> leaves t' = B @ length (cells t) # A) \<and>
         keyAt (cells t') (length (cells t)) = Some v \<and>
         length (cells t') = Suc (length (cells t)) \<and>
         (\<forall>b < length (cells t). keyAt (cells t') b = keyAt (cells t) b)"
proof -
  define a where "a = length (cells t)"
  define cs1 where "cs1 = SetValue (cells t @ [newLeaf]) a (Some (Entry v dd))"
  define t1 where "t1 = t\<lparr>cells := cs1\<rparr>"
  from inv have d: "digitizer t = ascii" and h: "head t = 0" and tl: "tail t = 1"
    and so: "storeOk (cells t)" and sz: "size' t = int (length (leaves t))"
    and ch: "dchain (cells t) 0 (leaves t) 1"
    and pt: "leaves t \<noteq> [] \<longrightarrow> previous (cells t ! 1) = Some (last (leaves t))"
    and wf0: "case root t of None \<Rightarrow> True | Some rn \<Rightarrow> wfN (keyAt (cells t)) [] rn"
    by (simp_all add: INV_def)
  have l1: "length cs1 = Suc a" and same: "\<And>b. b < a \<Longrightarrow> cs1 ! b = cells t ! b"
    and va: "lvalue (cs1 ! a) = Some (Entry v dd)" and nh: "\<not> isHead (cs1 ! a)" "\<not> isTail (cs1 ! a)"
    unfolding cs1_def a_def by (simp_all add: alloc_simps)
  have a2: "2 \<le> a" using so by (simp add: storeOk_def a_def)
  have so1: "storeOk cs1"
    unfolding storeOk_def
  proof (intro conjI allI impI)
    show "2 \<le> length cs1" using a2 l1 by simp
    show "isHead (cs1 ! 0)" "\<not> isTail (cs1 ! 0)" "isTail (cs1 ! 1)" "\<not> isHead (cs1 ! 1)"
      using so a2 same[of 0] same[of 1] by (simp_all add: storeOk_def)
    fix b assume b: "2 \<le> b \<and> b < length cs1"
    show "\<not> isHead (cs1 ! b)" "\<not> isTail (cs1 ! b)"
      using b so nh l1 same[of b] by (cases "b = a"; simp add: storeOk_def a_def)+
  qed
  have kmono: "\<And>b x. keyAt (cells t) b = Some x \<Longrightarrow> keyAt cs1 b = Some x"
    using same l1 by (auto simp: keyAt_def a_def split: if_splits)
  have ksame: "\<And>b. b < a \<Longrightarrow> keyAt cs1 b = keyAt (cells t) b"
    using same l1 by (auto simp: keyAt_def a_def)
  have ka: "keyAt cs1 a = Some v" using va l1 a2 by (simp add: keyAt_def)
  from ok obtain n where ins: "insert t (Some (Entry v dd)) = (Inr n, t')"
    by (auto simp: AddEntry_def split: prod.splits sum.splits)
  then obtain res ctx where f: "find t acquireSearchContext v = Inr (res, ctx)"
    by (cases "find t acquireSearchContext v") (auto simp: insert_def)
  from ins f have nm: "res \<noteq> Matched"
    by (auto simp: insert_def split: if_splits)
  from f tr have ne: "v \<noteq> []" by (auto simp: find_def Let_def split: if_splits)
  have body: "insert t (Some (Entry v dd)) =
      (case addNode t1 ctx a of
         (Inl err, t2) \<Rightarrow> (Inl err, t2)
       | (Inr ctx1, t2) \<Rightarrow>
           (case moveToPredecessor t2 ctx1 v Matched of
              Inl err \<Rightarrow> (Inl err, t2)
            | Inr (m, ctx2) \<Rightarrow>
                (case (if m then asLeaf (root t2) ctx2 else Inr (head t2)) of
                   Inl err \<Rightarrow> (Inl err, t2)
                 | Inr pivot \<Rightarrow>
                     (case AddAfter (cells t2) a pivot of
                        Inl err \<Rightarrow> (Inl err, t2)
                      | Inr cs \<Rightarrow> (Inr (Leaf a), t2\<lparr>cells := cs, size' := size' t2 + 1\<rparr>)))))"
    using f nm by (simp add: insert_def Let_def a_def cs1_def t1_def d cong: sum.case_cong prod.case_cong)
  obtain x t2 where an0: "addNode t1 ctx a = (x, t2)" by (cases "addNode t1 ctx a")
  with body ins obtain ctx1 where an: "addNode t1 ctx a = (Inr ctx1, t2)"
    by (cases x) auto
  have "\<exists>rn q ch r k. addNode (t1\<lparr>root := Some rn\<rparr>) (posCtx q) a = (Inr ctx1, t2) \<and>
          wfN (keyAt cs1) [] rn \<and> lookup rn q = Some (Node ch r k) \<and> follows ascii v 0 q \<and>
          length q \<le> length v \<and> inorder rn = leaves t"
  proof (cases "IsEmpty t")
    case True
    then have l0: "leaves t = []" using sz by (simp add: IsEmpty_def Len_def)
    from True f tr ne have ctx: "ctx = acquireSearchContext" by (simp add: find_def)
    let ?F = "Node (replicate 96 None) True 0"
    have "addNode t1 acquireSearchContext a = addNode (t1\<lparr>root := Some ?F\<rparr>) (posCtx []) a"
      using addNode_fresh[of t1 a] by (simp add: t1_def d)
    with an ctx have 1: "addNode (t1\<lparr>root := Some ?F\<rparr>) (posCtx []) a = (Inr ctx1, t2)" by simp
    have 2: "wfN (keyAt cs1) [] ?F" by (simp add: wfN.simps(2))
    show ?thesis using 1 2 l0
      by (intro exI[of _ ?F] exI[of _ "[]"] exI[of _ "replicate 96 None"] exI[of _ True] exI[of _ 0])
         simp
  next
    case False
    then have "leaves t \<noteq> []" using sz by (auto simp: IsEmpty_def Len_def)
    then obtain rn where rn: "root t = Some rn" by (cases "root t") (auto simp: leaves_def)
    with wf0 have wf: "wfN (keyAt (cells t)) [] rn" by simp
    from f False tr ne rn d
    have fl: "findLoop ascii (Some rn) v (int (length v) + 1) (posCtx []) = Inr (res, ctx)"
      by (simp add: find_def)
    from findLoop_wf[OF wf tr fl] nm obtain q ch r k where
      q: "ctx = posCtx q" "lookup rn q = Some (Node ch r k)" "follows ascii v 0 q" "length q \<le> length v"
      by auto
    have t1r: "t1\<lparr>root := Some rn\<rparr> = t1" using rn by (simp add: t1_def)
    have w1: "wfN (keyAt cs1) [] rn" by (rule wfN_mono[OF wf kmono])
    show ?thesis using an q t1r w1 rn
      by (intro exI[of _ rn] exI[of _ q] exI[of _ ch] exI[of _ r] exI[of _ k]) (simp add: leaves_def)
  qed
  then obtain rn q chn r k where
    an': "addNode (t1\<lparr>root := Some rn\<rparr>) (posCtx q) a = (Inr ctx1, t2)"
    and w1: "wfN (keyAt cs1) [] rn" and lk: "lookup rn q = Some (Node chn r k)"
    and fo: "follows ascii v 0 q" and lq: "length q \<le> length v" and io: "inorder rn = leaves t"
    by blast
  let ?t1 = "t1\<lparr>root := Some rn\<rparr>"
  have rngt: "\<forall>x \<in> set (leaves t). 2 \<le> x \<and> x < a"
  proof (cases "root t")
    case None
    then show ?thesis by (simp add: leaves_def)
  next
    case (Some rn')
    with wf0 have "wfN (keyAt (cells t)) [] rn'" by simp
    from wfN_leaf_range[OF this] Some show ?thesis by (auto simp: leaves_def a_def)
  qed
  have ch1: "dchain cs1 0 (inorder rn) 1"
  proof -
    have "dchain cs1 0 (leaves t) 1 = dchain (cells t) 0 (leaves t) 1"
      using rngt a2 same by (intro dchain_frame) auto
    with ch io show ?thesis by simp
  qed
  have ani: "a \<notin> set (inorder rn)" using rngt io by auto
  have c1: "cells ?t1 = cs1" by (simp add: t1_def)
  from insert_tail[of ?t1 rn q chn r k v a "Entry v dd" ctx1 t2] d h w1 lk fo lq tr ne a2 l1 va ani ch1 so1 an' c1
  obtain T B A m ctx2 pivot cs where
    r: "t2 = ?t1\<lparr>root := Some T\<rparr>" "moveToPredecessor t2 ctx1 v Matched = Inr (m, ctx2)"
       "(if m then asLeaf (root t2) ctx2 else Inr (head t2)) = Inr pivot"
       "AddAfter (cells t2) a pivot = Inr cs"
    and wT: "wfN (keyAt cs) [] T" and i0: "inorder rn = B @ A" and iT: "inorder T = B @ a # A"
    and chT: "dchain cs 0 (B @ a # A) 1" and sd: "sameData cs cs1"
    and pT: "previous (cs ! 1) = (if A = [] then Some a else previous (cs1 ! 1))"
    by (auto simp: t1_def)
  from body an r(2-4) ins have t': "t' = t2\<lparr>cells := cs, size' := size' t2 + 1\<rparr>" by simp
  have ks: "keyAt cs = keyAt cs1" by (rule keyAt_sameData[OF sd])
  have lcs: "length cs = Suc a" using sd l1 by (simp add: sameData_def)
  have lv': "leaves t' = B @ a # A" using t' r(1) iT by (simp add: leaves_def)
  have p1: "previous (cs1 ! 1) = previous (cells t ! 1)" using same[of 1] a2 by simp
  have "INV t'"
    unfolding INV_def
  proof (intro conjI)
    show "digitizer t' = ascii" "head t' = 0" "tail t' = 1"
      using t' r(1) d h tl by (simp_all add: t1_def)
    show "storeOk (cells t')" using t' storeOk_sameData[OF sd so1] by simp
    show "size' t' = int (length (leaves t'))"
      using t' r(1) sz lv' i0 io by (simp add: t1_def)
    show "dchain (cells t') 0 (leaves t') 1" using t' chT lv' by simp
    show "leaves t' \<noteq> [] \<longrightarrow> previous (cells t' ! 1) = Some (last (leaves t'))"
      using t' lv' pT p1 pt i0 io by auto
    show "case root t' of None \<Rightarrow> True | Some rn \<Rightarrow> wfN (keyAt (cells t')) [] rn"
      using t' r(1) wT by simp
  qed
  moreover have "\<exists>B A. leaves t = B @ A \<and> leaves t' = B @ length (cells t) # A"
    using lv' i0 io by (auto simp: a_def)
  moreover have "keyAt (cells t') (length (cells t)) = Some v"
    using t' ks ka by (simp add: a_def)
  moreover have "length (cells t') = Suc (length (cells t))" using t' lcs by (simp add: a_def)
  moreover have "\<forall>b < length (cells t). keyAt (cells t') b = keyAt (cells t) b"
    using t' ks ksame by (simp add: a_def)
  ultimately show ?thesis by blast
qed

section \<open>Searching and removing under the invariant\<close>

lemma INV_nonempty_root:
  assumes "INV t" and "\<not> IsEmpty t"
  shows "\<exists>rn. root t = Some rn \<and> wfN (keyAt (cells t)) [] rn \<and> leaves t = inorder rn \<and> leaves t \<noteq> []"
proof -
  from assms have "leaves t \<noteq> []" by (auto simp: INV_def IsEmpty_def Len_def)
  then obtain rn where rn: "root t = Some rn" by (cases "root t") (auto simp: leaves_def)
  with assms(1) \<open>leaves t \<noteq> []\<close> show ?thesis by (auto simp: INV_def leaves_def)
qed

lemma find_INV:
  assumes inv: "INV t" and ne: "\<not> IsEmpty t" and f: "find t acquireSearchContext k = Inr (res, ctx)"
  shows "\<exists>rn. root t = Some rn \<and> TrimSpace k \<noteq> [] \<and>
          ((res = Matched \<and> ctx = posCtx (keyPath (TrimSpace k)) \<and>
             (\<exists>a. lookup rn (keyPath (TrimSpace k)) = Some (Leaf a) \<and>
                  keyAt (cells t) a = Some (TrimSpace k) \<and> goodKey (TrimSpace k) \<and> a \<in> set (leaves t)))
           \<or> (res \<noteq> Matched \<and>
               (\<exists>q ch r n. ctx = posCtx q \<and> lookup rn q = Some (Node ch r n) \<and>
                     follows ascii (TrimSpace k) 0 q \<and> length q \<le> length (TrimSpace k))))"
proof -
  let ?v = "TrimSpace k"
  from INV_nonempty_root[OF inv ne] obtain rn where
    rn: "root t = Some rn" and wf: "wfN (keyAt (cells t)) [] rn" and lv: "leaves t = inorder rn"
    by blast
  from inv have d: "digitizer t = ascii" by (simp add: INV_def)
  from f have v: "?v \<noteq> []" by (auto simp: find_def Let_def split: if_splits)
  with f ne rn d
  have fl: "findLoop ascii (Some rn) ?v (int (length ?v) + 1) (posCtx []) = Inr (res, ctx)"
    by (simp add: find_def Let_def)
  have tr: "TrimSpace ?v = ?v" by (rule TrimSpace_idem)
  from findLoop_wf[OF wf tr fl] show ?thesis
  proof (elim disjE conjE exE)
    fix a
    assume 1: "res = Matched" "ctx = posCtx (keyPath ?v)" "lookup rn (keyPath ?v) = Some (Leaf a)"
      "keyAt (cells t) a = Some ?v" "goodKey ?v"
    from lookup_leaf_in[OF 1(3)] lv have "a \<in> set (leaves t)" by simp
    with 1 rn v show ?thesis by auto
  next
    fix q ch r n
    assume "res \<noteq> Matched" "ctx = posCtx q" "lookup rn q = Some (Node ch r n)"
      "follows ascii ?v 0 q" "length q \<le> length ?v"
    with rn v show ?thesis by auto
  qed
qed

text \<open>On a well-formed tree the search does not panic.\<close>

lemma asciiDigitOf_Inl: "asciiDigitOf 96 v j = Inl e \<Longrightarrow> 0 \<le> j \<Longrightarrow> \<not> crashed e"
  by (auto simp: asciiDigitOf_def Let_def crashed_def split: if_splits option.splits)

lemma asciiDigitOf_bound: "asciiDigitOf 96 v j = Inr i \<Longrightarrow> 0 \<le> i \<and> i < 96"
  by (auto simp: asciiDigitOf_def asciiTable_def Let_def split: if_splits option.splits)

lemma findLoop_no_crash:
  assumes "findLoop ascii (Some rn) v n (posCtx p) = Inl e" and "lookup rn p = Some m"
    and "wfN kv p m"
  shows "\<not> crashed e"
  using assms
proof (induction ascii "Some rn" v n "posCtx p" arbitrary: p m rule: findLoop.induct)
  case (1 v n p m)
  have leaf: "atLeaf (Some rn) (posCtx p) = IsLeaf m"
    using "1.prems"(2) by (simp add: atLeaf_def IsLeaf_def split: node.splits)
  show ?case
  proof (cases "IsLeaf m \<or> int (length p) = n")
    case True
    with "1.prems"(1) leaf show ?thesis
      by (auto simp: findLoop.simps[of ascii "Some rn" v n "posCtx p"] split: if_splits)
  next
    case False
    then obtain ch r k where m: "m = Node ch r k" by (cases m) (auto simp: IsLeaf_def)
    with "1.prems"(3) have len: "length ch = 96" by (simp add: wfN.simps(2))
    have unf: "findLoop ascii (Some rn) v n (posCtx p) =
                 (case descendTo ascii (Some rn) (posCtx p) v of
                    Inl e \<Rightarrow> Inl e
                  | Inr (k, s') \<Rightarrow>
                      if k = childNotFound then Inr (Unmatched, s')
                      else findLoop ascii (Some rn) v n s')"
      using False leaf by (simp add: findLoop.simps[of ascii "Some rn" v n "posCtx p"])
    show ?thesis
    proof (cases "asciiDigitOf 96 v (int (length p))")
      case (Inl e')
      with unf "1.prems"(1) have "e = e'" by (simp add: descendTo_def)
      with Inl show ?thesis by (auto dest: asciiDigitOf_Inl)
    next
      case (Inr i)
      from asciiDigitOf_bound[OF Inr] len m have i: "0 \<le> i" "nat i < length (slots m)" by auto
      note di = descendToIndex_in_range[OF "1.prems"(2) i]
      show ?thesis
      proof (cases "slots m ! nat i")
        case None
        with di Inr unf "1.prems"(1) show ?thesis by (simp add: descendTo_def)
      next
        case (Some c)
        with di have ds: "descendToIndex (Some rn) (posCtx p) i = Inr (i, posCtx (p @ [i]))" by simp
        have knf: "i \<noteq> childNotFound" using i by (simp add: childNotFound_def)
        have dt: "descendTo ascii (Some rn) (posCtx p) v = Inr (i, posCtx (p @ [i]))"
          using Inr ds by (simp add: descendTo_def)
        from unf dt knf "1.prems"(1)
        have fl: "findLoop ascii (Some rn) v n (posCtx (p @ [i])) = Inl e" by simp
        have ptr: "pointer (posCtx p) \<noteq> None \<and> \<not> atLeaf (Some rn) (posCtx p)"
          using leaf False by simp
        have bp: "branchPosition (posCtx p) \<noteq> n" using False by simp
        have lc: "lookup rn (p @ [i]) = Some c"
          using lookup_snoc[OF "1.prems"(2), of i] i Some by simp
        have wc: "wfN kv (p @ [i]) c"
          using "1.prems"(3) m i Some by (auto intro: wfN_child)
        from "1.hyps"[OF ptr bp dt refl knf fl lc wc] show ?thesis .
      qed
    qed
  qed
qed

lemma find_no_crash:
  assumes inv: "INV t" and f: "find t acquireSearchContext k = Inl e"
  shows "\<not> crashed e"
proof (cases "TrimSpace k = [] \<or> IsEmpty t")
  case True
  with f show ?thesis by (auto simp: find_def Let_def crashed_def split: if_splits)
next
  case False
  then have ne: "\<not> IsEmpty t" by simp
  from INV_nonempty_root[OF inv ne] obtain rn where
    rn: "root t = Some rn" and wf: "wfN (keyAt (cells t)) [] rn" by blast
  from inv have d: "digitizer t = ascii" by (simp add: INV_def)
  from f False rn d
  have "findLoop ascii (Some rn) (TrimSpace k) (int (length (TrimSpace k)) + 1) (posCtx []) = Inl e"
    by (simp add: find_def Let_def)
  from findLoop_no_crash[OF this _ wf] show ?thesis by simp
qed

lemma Contains_iff:
  assumes inv: "INV t"
  shows "Contains t k = Inr (\<exists>a \<in> set (leaves t). keyAt (cells t) a = Some (TrimSpace k))"
proof (cases "\<exists>a \<in> set (leaves t). keyAt (cells t) a = Some (TrimSpace k)")
  case True
  then obtain a where a: "a \<in> set (leaves t)" "keyAt (cells t) a = Some (TrimSpace k)" by blast
  from find_stored[OF inv a] have g: "goodKey (TrimSpace k)"
    and f: "find t acquireSearchContext (TrimSpace k) = Inr (Matched, posCtx (keyPath (TrimSpace k)))"
    by auto
  from a inv have "\<not> IsEmpty t" by (auto simp: INV_def IsEmpty_def Len_def)
  moreover from g have "TrimSpace k \<noteq> []" by (simp add: goodKey_def)
  ultimately show ?thesis using f True by (simp add: Contains_def Let_def)
next
  case False
  show ?thesis
  proof (cases "IsEmpty t \<or> TrimSpace k = []")
    case True
    with False show ?thesis by (auto simp: Contains_def Let_def)
  next
    case ne: False
    show ?thesis
    proof (cases "find t acquireSearchContext (TrimSpace k)")
      case (Inl e)
      then have "find t acquireSearchContext k = Inl e" by (simp add: find_trim)
      from find_no_crash[OF inv this] Inl ne False show ?thesis
        by (simp add: Contains_def Let_def)
    next
      case (Inr x)
      obtain res ctx where x: "x = (res, ctx)" by (cases x)
      with Inr have f: "find t acquireSearchContext k = Inr (res, ctx)" by (simp add: find_trim)
      have "res \<noteq> Matched"
      proof
        assume "res = Matched"
        with find_INV[OF inv _ f] ne False show False by auto
      qed
      with Inr x ne False show ?thesis by (simp add: Contains_def Let_def)
    qed
  qed
qed

text \<open>Two leaves of the tree with the same key are the same leaf.\<close>

lemma leaf_key_inj:
  assumes inv: "INV t" and a: "a \<in> set (leaves t)" "keyAt (cells t) a = Some v"
    and b: "b \<in> set (leaves t)" "keyAt (cells t) b = Some v"
  shows "a = b"
  using find_stored[OF inv a] find_stored[OF inv b] by auto

lemma Remove_INV:
  fixes t :: "'d trie"
  assumes inv: "INV t" and rm: "Remove t k = (Inr True, t')"
  shows "INV t' \<and> keyAt (cells t') = keyAt (cells t) \<and>
         (\<exists>B a A. leaves t = B @ a # A \<and> leaves t' = B @ A \<and>
                   keyAt (cells t) a = Some (TrimSpace k))"
proof -
  let ?v = "TrimSpace k"
  let ?P = "keyPath ?v"
  from rm have ne: "\<not> IsEmpty t"
    by (auto simp: Remove_def RemoveEntry_def split: if_splits)
  from rm ne obtain res ctx where f: "find t acquireSearchContext k = Inr (res, ctx)"
    by (cases "find t acquireSearchContext k") (auto simp: Remove_def RemoveEntry_def split: if_splits)
  from rm ne f have m: "res = Matched" and r: "remove t (pointer ctx) = (None, t')"
    by (auto simp: Remove_def RemoveEntry_def split: if_splits prod.splits option.splits)
  from find_INV[OF inv ne f] m obtain rn a where
    rn: "root t = Some rn" and ctx: "ctx = posCtx ?P" and lk: "lookup rn ?P = Some (Leaf a)"
    and kv: "keyAt (cells t) a = Some ?v" and g: "goodKey ?v" and al: "a \<in> set (leaves t)"
    by auto
  from inv rn have d: "digitizer t = ascii" and h: "head t = 0" and tl: "tail t = 1"
    and so: "storeOk (cells t)" and sz: "size' t = int (length (inorder rn))"
    and ch: "dchain (cells t) 0 (inorder rn) 1"
    and pt: "inorder rn \<noteq> [] \<longrightarrow> previous (cells t ! 1) = Some (last (inorder rn))"
    and wf: "wfN (keyAt (cells t)) [] rn"
    by (simp_all add: INV_def leaves_def)
  let ?B = "before rn ?P"
  let ?A = "after rn ?P"
  have io: "inorder rn = ?B @ a # ?A" using inorder_split[OF lk] by simp
  have rng: "\<forall>x \<in> set (inorder rn). 2 \<le> x \<and> x < length (cells t)"
    using wfN_leaf_range[OF wf] by blast
  have dis: "distinct (inorder rn)" by (rule wfN_distinct[OF wf])
  have l2: "2 \<le> length (cells t)" using so by (simp add: storeOk_def)
  have 1: "dchain (cells t) 0 (?B @ a # ?A) 1" using ch io by simp
  have 2: "distinct (0 # ?B @ a # ?A @ [1])"
  proof -
    have "0 \<notin> set (inorder rn)" "1 \<notin> set (inorder rn)" using rng by auto
    moreover have "distinct (?B @ a # ?A)" using dis io by simp
    moreover have "set (inorder rn) = set (?B @ a # ?A)" using io by simp
    ultimately show ?thesis by auto
  qed
  have 3: "\<forall>x \<in> set (0 # ?B @ a # ?A @ [1]). x < length (cells t)"
  proof -
    have "\<forall>x \<in> set (?B @ a # ?A). x < length (cells t)" using rng io by simp
    with l2 show ?thesis by auto
  qed
  from Remove_leaf_chain[OF 1 2 3] obtain cs where
    cs: "Remove_leaf (cells t) a = Inr cs" "dchain cs 0 (?B @ ?A) 1" "sameData cs (cells t)"
        "previous (cs ! 1) = (if ?A = [] then Some (last (0 # ?B)) else previous (cells t ! 1))"
    by blast
  from kv obtain e where e: "lvalue (cells t ! a) = Some e" "Value e = ?v"
    by (auto simp: keyAt_def split: if_splits)
  with cs(3) have e': "lvalue (cs ! a) = Some e" by (simp add: sameData_def)
  have fo: "follows ascii ?v 0 ?P" by (rule follows_keyPath[OF g])
  have dl: "\<not> IsRoot (Leaf a)" "\<not> HasChildren (Leaf a)" by (simp_all add: IsRoot_def HasChildren_def)
  from removeLoop_char[OF wf lk keyPath_nonempty fo dl] obtain T where
    T: "removeLoop ascii (Some (replaceAt rn ?P (Leaf a))) ?v ?P (int (length ?P)) = (None, Some T)"
       "wfN (keyAt (cells t)) [] T" "inorder T = ?B @ ?A"
    by blast
  have rid: "replaceAt rn ?P (Leaf a) = rn" by (rule replaceAt_id[OF lk])
  have rl: "removeLoop ascii (Some rn) ?v ?P (int (length ?v) + 1) = (None, Some T)"
    using T(1) rid by (simp add: add.commute)
  have "remove t (Some ?P) = (None, t\<lparr>cells := cs, root := Some T, size' := size' t - 1\<rparr>)"
    using rn lk cs(1) e' e(2) rl d by (simp add: remove_def Let_def)
  with r ctx have t': "t' = t\<lparr>cells := cs, root := Some T, size' := size' t - 1\<rparr>" by simp
  have ks: "keyAt cs = keyAt (cells t)" by (rule keyAt_sameData[OF cs(3)])
  have lv': "leaves t' = ?B @ ?A" using t' T(3) by (simp add: leaves_def)
  have "INV t'"
    unfolding INV_def
  proof (intro conjI)
    show "digitizer t' = ascii" "head t' = 0" "tail t' = 1" using t' d h tl by simp_all
    show "storeOk (cells t')" using t' storeOk_sameData[OF cs(3) so] by simp
    show "size' t' = int (length (leaves t'))" using t' sz lv' io by simp
    show "dchain (cells t') 0 (leaves t') 1" using t' cs(2) lv' by simp
    show "leaves t' \<noteq> [] \<longrightarrow> previous (cells t' ! 1) = Some (last (leaves t'))"
      using t' lv' cs(4) pt io by auto
    show "case root t' of None \<Rightarrow> True | Some rn \<Rightarrow> wfN (keyAt (cells t')) [] rn"
      using t' T(2) ks by simp
  qed
  moreover have "keyAt (cells t') = keyAt (cells t)" using t' ks by simp
  moreover have "\<exists>B a A. leaves t = B @ a # A \<and> leaves t' = B @ A \<and> keyAt (cells t) a = Some ?v"
    using io lv' kv rn by (auto simp: leaves_def)
  ultimately show ?thesis by blast
qed

section \<open>Queries under the invariant\<close>

text \<open>The key of a leaf object of the trie.\<close>

definition keyv :: "'d trie \<Rightarrow> addr \<Rightarrow> string" where
  "keyv t a = the (keyAt (cells t) a)"

lemma INV_leaf:
  assumes "INV t" and "a \<in> set (leaves t)"
  shows "\<exists>e. 2 \<le> a \<and> a < length (cells t) \<and> lvalue (cells t ! a) = Some e \<and>
             keyAt (cells t) a = Some (Value e) \<and> goodKey (Value e) \<and>
             \<not> isHead (cells t ! a) \<and> \<not> isTail (cells t ! a)"
proof -
  from assms(2) obtain rn where rn: "root t = Some rn" by (cases "root t") (auto simp: leaves_def)
  with assms have wf: "wfN (keyAt (cells t)) [] rn" and a: "a \<in> set (inorder rn)"
    and so: "storeOk (cells t)"
    by (simp_all add: INV_def leaves_def)
  from wfN_leaf_at[OF wf a] obtain v where v: "keyAt (cells t) a = Some v" "goodKey v" by blast
  then show ?thesis using so by (auto simp: keyAt_def storeOk_def split: if_splits)
qed

lemma keyOf_leaf:
  "INV t \<Longrightarrow> a \<in> set (leaves t) \<Longrightarrow> keyOf (cells t) (Some a) = Inr (keyv t a)"
  by (drule (1) INV_leaf) (auto simp: keyOf_def keyv_def)

lemma split_unique:
  "distinct (B @ a # A) \<Longrightarrow> B @ a # A = B' @ a # A' \<Longrightarrow> B = B' \<and> A = A'"
proof (induction B arbitrary: B')
  case Nil
  show ?case
  proof (cases B')
    case Nil
    with Nil.prems show ?thesis by simp
  next
    case (Cons y ys)
    with Nil.prems have "a = y" "A = ys @ a # A'" by simp_all
    with Nil.prems(1) show ?thesis by simp
  qed
next
  case (Cons x B)
  show ?case
  proof (cases B')
    case Nil
    with Cons.prems(2) have "x = a" by simp
    with Cons.prems(1) show ?thesis by simp
  next
    case (Cons y ys)
    with Cons.prems(2) have xy: "x = y" and eq: "B @ a # A = ys @ a # A'" by simp_all
    from Cons.prems(1) have "distinct (B @ a # A)" by simp
    from Cons.IH[OF this eq] xy Cons show ?thesis by simp
  qed
qed

lemma INV_distinct: "INV t \<Longrightarrow> distinct (leaves t)"
  by (cases "root t") (auto simp: INV_def leaves_def dest: wfN_distinct)

lemma Min_INV:
  assumes inv: "INV t" and ne: "leaves t \<noteq> []"
  shows "Min t = Inr (keyv t (hd (leaves t)))"
proof -
  from ne obtain x xs where l: "leaves t = x # xs" by (cases "leaves t") auto
  with inv have "next (cells t ! 0) = Some x" "head t = 0" "size' t \<noteq> 0" by (auto simp: INV_def)
  moreover have "keyOf (cells t) (Some x) = Inr (keyv t x)" using l by (intro keyOf_leaf[OF inv]) simp
  ultimately show ?thesis using l by (simp add: Min_def IsEmpty_def Len_def)
qed

lemma Max_INV:
  assumes inv: "INV t" and ne: "leaves t \<noteq> []"
  shows "Max t = Inr (keyv t (last (leaves t)))"
proof -
  from inv ne have "previous (cells t ! 1) = Some (last (leaves t))" "tail t = 1" "size' t \<noteq> 0"
    by (auto simp: INV_def)
  moreover have "keyOf (cells t) (Some (last (leaves t))) = Inr (keyv t (last (leaves t)))"
    using ne by (intro keyOf_leaf[OF inv]) simp
  ultimately show ?thesis by (simp add: Max_def IsEmpty_def Len_def)
qed

lemma stored_position:
  assumes inv: "INV t" and l: "leaves t = B @ a # A" and kv: "keyAt (cells t) a = Some v"
  shows "\<exists>rn. root t = Some rn \<and> wfN (keyAt (cells t)) [] rn \<and>
              lookup rn (keyPath v) = Some (Leaf a) \<and> goodKey v \<and>
              find t acquireSearchContext v = Inr (Matched, posCtx (keyPath v)) \<and>
              before rn (keyPath v) = B \<and> after rn (keyPath v) = A \<and> \<not> IsEmpty t"
proof -
  from l have a: "a \<in> set (leaves t)" by simp
  from find_stored[OF inv a kv] obtain rn where
    rn: "root t = Some rn" and lk: "lookup rn (keyPath v) = Some (Leaf a)" and g: "goodKey v"
    and f: "find t acquireSearchContext v = Inr (Matched, posCtx (keyPath v))"
    by blast
  from inv rn have wf: "wfN (keyAt (cells t)) [] rn" by (simp add: INV_def)
  have "distinct (B @ a # A)" using INV_distinct[OF inv] l by simp
  moreover from inorder_split[OF lk] l rn
  have "B @ a # A = before rn (keyPath v) @ a # after rn (keyPath v)" by (simp add: leaves_def)
  ultimately have "B = before rn (keyPath v) \<and> A = after rn (keyPath v)"
    by (intro split_unique[where a = a])
  moreover have "\<not> IsEmpty t" using inv l by (auto simp: INV_def IsEmpty_def Len_def)
  ultimately show ?thesis using rn wf lk g f by simp
qed

lemma Predecessor_stored:
  assumes inv: "INV t" and l: "leaves t = B @ a # A" and kv: "keyAt (cells t) a = Some v"
  shows "Predecessor t v = (if B = [] then Inr (v, Some ErrNotFound) else Inr (keyv t (last B), None))"
proof -
  from stored_position[OF inv l kv] obtain rn where
    rn: "root t = Some rn" and wf: "wfN (keyAt (cells t)) [] rn"
    and lk: "lookup rn (keyPath v) = Some (Leaf a)" and g: "goodKey v"
    and f: "find t acquireSearchContext v = Inr (Matched, posCtx (keyPath v))"
    and b: "before rn (keyPath v) = B" and ne: "\<not> IsEmpty t"
    by blast
  from inv have d: "digitizer t = ascii" by (simp add: INV_def)
  from g have tr: "TrimSpace v = v" "v \<noteq> []" by (simp_all add: goodKey_def)
  have fo: "follows (digitizer t) v 0 (keyPath v)" using follows_keyPath[OF g] d by simp
  have bs: "Base (digitizer t) = 96" by (simp add: d)
  from moveToPredecessor_char[OF wf lk fo bs rn] show ?thesis
  proof (elim disjE conjE exE)
    fix s'
    assume "before rn (keyPath v) = []"
      and "moveToPredecessor t (posCtx (keyPath v)) v Matched = Inr (False, s')"
    then show ?thesis using ne tr f b by (simp add: Predecessor_def Let_def)
  next
    fix s'
    assume 1: "before rn (keyPath v) \<noteq> []"
      and 2: "moveToPredecessor t (posCtx (keyPath v)) v Matched = Inr (True, s')"
      and 3: "asLeaf (Some rn) s' = Inr (last (before rn (keyPath v)))"
    from 1 b l have "last B \<in> set (leaves t)" by simp
    from keyOf_leaf[OF inv this] 1 2 3 show ?thesis
      using ne tr f b rn by (simp add: Predecessor_def Let_def)
  qed
qed

lemma Successor_stored:
  assumes inv: "INV t" and l: "leaves t = B @ a # A" and kv: "keyAt (cells t) a = Some v"
  shows "Successor t v = (if A = [] then Inr (v, Some ErrNotFound) else Inr (keyv t (hd A), None))"
proof -
  from stored_position[OF inv l kv] obtain rn where
    rn: "root t = Some rn" and lk: "lookup rn (keyPath v) = Some (Leaf a)" and g: "goodKey v"
    and f: "find t acquireSearchContext v = Inr (Matched, posCtx (keyPath v))"
    and ne: "\<not> IsEmpty t"
    by blast
  from g have tr: "TrimSpace v = v" "v \<noteq> []" by (simp_all add: goodKey_def)
  from inv l have ch: "dchain (cells t) 0 (B @ a # A) 1" and so: "storeOk (cells t)"
    and tl: "tail t = 1"
    by (simp_all add: INV_def)
  from ch have ca: "dchain (cells t) a A 1" by (simp add: dchain_append)
  have al: "asLeaf (root t) (posCtx (keyPath v)) = Inr a" using rn lk by (simp add: asLeaf_posCtx)
  show ?thesis
  proof (cases A)
    case Nil
    with ca have "next (cells t ! a) = Some 1" by simp
    moreover have "isTail (cells t ! 1)" using so by (simp add: storeOk_def)
    ultimately show ?thesis using ne tr f al Nil by (simp add: Successor_def successorResult_def Let_def)
  next
    case (Cons x xs)
    with ca have n: "next (cells t ! a) = Some x" by simp
    from Cons l have x: "x \<in> set (leaves t)" by simp
    from INV_leaf[OF inv x] have nt: "\<not> isTail (cells t ! x)" by blast
    from keyOf_leaf[OF inv x] n nt show ?thesis
      using ne tr f al Cons by (simp add: Successor_def successorResult_def Let_def)
  qed
qed

lemma Entries_INV:
  assumes inv: "INV t"
  shows "Entries t = Some (Inr (map (\<lambda>a. lvalue (cells t ! a)) (leaves t)), t)"
proof -
  from inv have ch: "dchain (cells t) 0 (leaves t) 1" and so: "storeOk (cells t)" and h: "head t = 0"
    by (simp_all add: INV_def)
  have r: "\<forall>x \<in> set (leaves t). 2 \<le> x \<and> x < length (cells t)"
    using INV_leaf[OF inv] by blast
  have "entriesLoop (cells t) 0 [] = Some (Inr ([] @ map (\<lambda>a. lvalue (cells t ! a)) (leaves t)), cells t)"
    using ch so r by (intro entriesLoop_chain) (auto simp: storeOk_def)
  then show ?thesis using h by (simp add: Entries_def)
qed

lemma Values_INV:
  assumes inv: "INV t"
  shows "Values t = Some (Inr (map (keyv t) (leaves t)), t)"
proof -
  have e: "\<And>a. a \<in> set (leaves t) \<Longrightarrow>
              lvalue (cells t ! a) \<noteq> None \<and> Value (the (lvalue (cells t ! a))) = keyv t a"
  proof -
    fix a assume "a \<in> set (leaves t)"
    from INV_leaf[OF inv this] obtain e where
      "lvalue (cells t ! a) = Some e" "keyAt (cells t) a = Some (Value e)" by blast
    then show "lvalue (cells t ! a) \<noteq> None \<and> Value (the (lvalue (cells t ! a))) = keyv t a"
      by (simp add: keyv_def)
  qed
  have 1: "None \<notin> set (map (\<lambda>a. lvalue (cells t ! a)) (leaves t))"
  proof
    assume "None \<in> set (map (\<lambda>a. lvalue (cells t ! a)) (leaves t))"
    then obtain a where "a \<in> set (leaves t)" "lvalue (cells t ! a) = None" by auto
    with e show False by blast
  qed
  have 2: "map (\<lambda>e. Value (the e)) (map (\<lambda>a. lvalue (cells t ! a)) (leaves t)) = map (keyv t) (leaves t)"
    using e by simp
  show ?thesis using Entries_INV[OF inv] 1 2 by (simp add: Values_def)
qed

text \<open>
  The digit order of keys: the lexicographic order of their digit sequences, strict.
\<close>

definition digitLess :: "digitizer \<Rightarrow> string \<Rightarrow> string \<Rightarrow> bool" where
  "digitLess d a b = ord_class.lexordp (digitsOf d a) (digitsOf d b)"

lemma sorted_wrt_cong_set:
  "sorted_wrt R xs \<Longrightarrow> (\<And>x y. x \<in> set xs \<Longrightarrow> y \<in> set xs \<Longrightarrow> R x y \<Longrightarrow> R' x y) \<Longrightarrow> sorted_wrt R' xs"
  by (induction xs) auto

lemma keys_sorted:
  assumes inv: "INV t"
  shows "sorted_wrt (digitLess (digitizer t)) (map (keyv t) (leaves t))"
proof (cases "root t")
  case None
  then show ?thesis by (simp add: leaves_def)
next
  case (Some rn)
  with inv have wf: "wfN (keyAt (cells t)) [] rn" and d: "digitizer t = ascii"
    by (simp_all add: INV_def)
  have "sorted_wrt (\<lambda>a b. digitLess ascii (keyv t a) (keyv t b)) (inorder rn)"
  proof (rule sorted_wrt_cong_set[OF wfN_sorted[OF wf]])
    fix x y assume x: "x \<in> set (inorder rn)" and y: "y \<in> set (inorder rn)"
      and o: "ord_class.lexordp (pathOf (keyAt (cells t)) x) (pathOf (keyAt (cells t)) y)"
    from wfN_leaf_at[OF wf x] have "digitsOf ascii (keyv t x) = pathOf (keyAt (cells t)) x"
      by (auto simp: keyv_def pathOf_def digitsOf_keyPath)
    moreover from wfN_leaf_at[OF wf y] have "digitsOf ascii (keyv t y) = pathOf (keyAt (cells t)) y"
      by (auto simp: keyv_def pathOf_def digitsOf_keyPath)
    ultimately show "digitLess ascii (keyv t x) (keyv t y)" using o by (simp add: digitLess_def)
  qed
  then show ?thesis using Some d by (simp add: sorted_wrt_map leaves_def)
qed

section \<open>Runs of calls\<close>

text \<open>
  A run of calls of \<^verbatim>\<open>Add\<close> (with one value) and \<^verbatim>\<open>Remove\<close> in which every call returns
  without error, or is refused before it changes anything: \<^verbatim>\<open>Add\<close> of a key that the trie
  contains, \<^verbatim>\<open>Remove\<close> on an empty trie.  The result is the trie after the run; \<open>None\<close> when
  some call fails otherwise.
\<close>

datatype call = CallAdd string | CallRemove string

fun runOk :: "'d trie \<Rightarrow> call list \<Rightarrow> 'd trie option" where
  "runOk t [] = Some t"
| "runOk t (CallAdd v # xs) =
     (case Add t [v] of
        (None, t') \<Rightarrow> runOk t' xs
      | (Some e, t') \<Rightarrow> if Contains t v = Inr True then runOk t' xs else None)"
| "runOk t (CallRemove v # xs) =
     (case Remove t v of
        (Inr removed, t') \<Rightarrow> runOk t' xs
      | (Inl e, t') \<Rightarrow> if IsEmpty t then runOk t' xs else None)"

lemma Add_contained: "Contains t v = Inr True \<Longrightarrow> Add t [v] = (Some ErrPrefixViolation, t)"
  by (auto simp: Contains_def Add.simps AddEntry_def insert_def Let_def TrimSpace_idem find_trim
           split: if_splits sum.splits)

lemma Remove_empty: "IsEmpty t \<Longrightarrow> Remove t v = (Inl ErrCollectionEmpty, t)"
  by (simp add: Remove_def RemoveEntry_def)

lemma INV_New: "INV New"
  by (simp add: INV_def New_def mkTrie_def leaves_def storeOk_def newLeaf_def SetNext_def)

lemma Add_INV:
  assumes inv: "INV t" and ok: "Add t [k] = (None, t')"
  shows "INV t'"
proof (cases "TrimSpace k = []")
  case True
  with ok show ?thesis using inv by (simp add: Add.simps Let_def)
next
  case False
  with ok have "AddEntry t (Some (Entry (TrimSpace k) None)) = (None, t')"
    by (auto simp: Add.simps Let_def split: prod.splits option.splits)
  from AddEntry_INV[OF inv TrimSpace_idem this] show ?thesis by blast
qed

lemma Remove_False:
  assumes "Remove t k = (Inr False, t')"
  shows "t' = t \<and> Contains t k = Inr False"
proof -
  from assms have ne: "\<not> IsEmpty t" by (auto simp: Remove_def RemoveEntry_def split: if_splits)
  show ?thesis
  proof (cases "find t acquireSearchContext k")
    case (Inl err)
    with assms ne have nc: "\<not> crashed err" and t: "t' = t"
      by (auto simp: Remove_def RemoveEntry_def split: if_splits)
    from Inl have "find t acquireSearchContext (TrimSpace k) = Inl err" by (simp add: find_trim)
    with nc ne t show ?thesis by (simp add: Contains_def Let_def)
  next
    case (Inr x)
    obtain r ctx where x: "x = (r, ctx)" by (cases x)
    from Inr x assms ne have nm: "r \<noteq> Matched" and t: "t' = t"
      by (auto simp: Remove_def RemoveEntry_def split: if_splits prod.splits option.splits)
    from Inr x have v: "TrimSpace k \<noteq> []" by (auto simp: find_def Let_def split: if_splits)
    from Inr x have "find t acquireSearchContext (TrimSpace k) = Inr (r, ctx)" by (simp add: find_trim)
    with nm ne v t show ?thesis by (simp add: Contains_def Let_def)
  qed
qed

lemma Remove_INV_any:
  assumes inv: "INV t" and ok: "Remove t k = (Inr b, t')"
  shows "INV t'"
proof (cases b)
  case True
  with ok have "Remove t k = (Inr True, t')" by simp
  from Remove_INV[OF inv this] show ?thesis by blast
next
  case False
  with ok have "Remove t k = (Inr False, t')" by simp
  from Remove_False[OF this] inv show ?thesis by simp
qed

lemma runOk_INV: "INV t \<Longrightarrow> runOk t ops = Some t' \<Longrightarrow> INV t'"
proof (induction ops arbitrary: t)
  case Nil
  then show ?case by simp
next
  case (Cons c ops)
  show ?case
  proof (cases c)
    case (CallAdd v)
    obtain e t1 where a: "Add t [v] = (e, t1)" by (cases "Add t [v]")
    have "INV t1 \<and> runOk t1 ops = Some t'"
    proof (cases e)
      case None
      with a CallAdd Cons.prems Add_INV[of t v t1] show ?thesis by simp
    next
      case (Some err)
      with a CallAdd Cons.prems(2) have c: "Contains t v = Inr True" and r: "runOk t1 ops = Some t'"
        by (auto split: if_splits)
      from Add_contained[OF c] a have "t1 = t" by simp
      with r Cons.prems(1) show ?thesis by simp
    qed
    with Cons.IH show ?thesis by blast
  next
    case (CallRemove v)
    obtain x t1 where a: "Remove t v = (x, t1)" by (cases "Remove t v")
    have "INV t1 \<and> runOk t1 ops = Some t'"
    proof (cases x)
      case (Inr b)
      with a CallRemove Cons.prems Remove_INV_any[of t v b t1] show ?thesis by simp
    next
      case (Inl err)
      with a CallRemove Cons.prems(2) have c: "IsEmpty t" and r: "runOk t1 ops = Some t'"
        by (auto split: if_splits)
      from Remove_empty[OF c] a have "t1 = t" by simp
      with r Cons.prems(1) show ?thesis by simp
    qed
    with Cons.IH show ?thesis by blast
  qed
qed

lemma find_Matched_Contains:
  "find t acquireSearchContext k = Inr (Matched, ctx) \<Longrightarrow> Contains t k = Inr True"
  by (auto simp: find_def Contains_def Let_def TrimSpace_idem split: if_splits)


section \<open>Child slot bounds\<close>

text \<open>
  Claim C9.  The claim: for a node of child capacity \<open>c\<close> and every index outside
  \<open>[0, c)\<close>, in particular \<open>index = c\<close>, \<^verbatim>\<open>ChildAt\<close> returns an error and never panics, and
  \<^verbatim>\<open>RemoveChildAt\<close> returns false.  The code: at \<open>index = c\<close> the bounds check of
  \<^verbatim>\<open>checkBounds\<close> (\<^verbatim>\<open>index > len(n.children)\<close>) lets the index through and the slice access
  panics, in \<^verbatim>\<open>ChildAt\<close> and in \<^verbatim>\<open>RemoveChildAt\<close>, for every node.
\<close>

theorem ChildAt_at_capacity_panics:
  "ChildAt n (int (length (slots n))) = Inl Panic \<and>
   RemoveChildAt n (int (length (slots n))) = Inl Panic"
  by (cases n) (simp_all add: ChildAt_def checkBounds_def)


section \<open>Prefix-free rejection\<close>

text \<open>
  Claim C2, as stated: under the default digitizer, inserting "ab" and then "abc" makes
  the second insert fail with a prefix-violation error and leaves the size unchanged.
  On the code the second insert succeeds and the size goes from 1 to 2: the end-of-key
  digit 0 follows "ab", so the digits of "ab" are no prefix of the digits of "abc".
\<close>

theorem insert_ab_abc_succeeds:
  "fst (Add (snd (Add (New :: 'd trie) [''ab''])) [''abc'']) = None \<and>
   Len (snd (Add (New :: 'd trie) [''ab''])) = 1 \<and>
   Len (snd (Add (snd (Add (New :: 'd trie) [''ab''])) [''abc''])) = 2"
  by code_simp

text \<open>
  Claim C2, amended: under the default digitizer, inserting "ab" and then "abc" succeeds,
  both keys are contained afterwards and the size is 2; the insert that fails with a
  prefix-violation error and leaves the size unchanged is the insert of a key that is
  already stored ("ab" a second time).
\<close>

theorem insert_prefix_violation_on_stored_key:
  "fst (Add (snd (Add (New :: 'd trie) [''ab''])) [''abc'']) = None \<and>
   Len (snd (Add (snd (Add (New :: 'd trie) [''ab''])) [''abc''])) = 2 \<and>
   Contains (snd (Add (snd (Add (New :: 'd trie) [''ab''])) [''abc''])) ''ab'' = Inr True \<and>
   Contains (snd (Add (snd (Add (New :: 'd trie) [''ab''])) [''abc''])) ''abc'' = Inr True \<and>
   fst (Add (snd (Add (New :: 'd trie) [''ab''])) [''ab'']) = Some ErrPrefixViolation \<and>
   Len (snd (Add (snd (Add (New :: 'd trie) [''ab''])) [''ab''])) = Len (snd (Add (New :: 'd trie) [''ab'']))"
  by code_simp


section \<open>Count invariant\<close>

text \<open>
  Claim C4.  Starting from a fresh trie, after any sequence of calls of \<^verbatim>\<open>Add\<close>,
  \<^verbatim>\<open>AddEntry\<close>, \<^verbatim>\<open>Remove\<close> and \<^verbatim>\<open>RemoveEntry\<close> of which \<open>n\<close> are successful inserts and \<open>m\<close>
  are successful removals (failed calls may lie between them), \<^verbatim>\<open>Len()\<close> is \<open>n - m\<close>.
\<close>

theorem Len_counts_inserts_and_removals:
  "run New ops = Some (t, n, m) \<Longrightarrow> Len t = int n - int m"
  using run_Len[of New ops t n m] by (simp add: Len_def New_def mkTrie_def)

theorem Len_counts_inserts_and_removals_witness:
  "\<exists>t. run (New :: unit trie) [OpAdd ''b'', OpAdd '' '', OpAdd ''b'', OpAddEntry (Some (Entry ''a'' None)),
               OpRemove ''c'', OpRemove ''b'', OpRemoveEntry None] = Some (t, 2, 1)
       \<and> Len t = 1"
proof -
  have "map_option snd (run (New :: unit trie) [OpAdd ''b'', OpAdd '' '', OpAdd ''b'',
          OpAddEntry (Some (Entry ''a'' None)), OpRemove ''c'', OpRemove ''b'',
          OpRemoveEntry None]) = Some (2, 1)"
    by code_simp
  from map_option_snd_SomeD[OF this]
  obtain t where r: "run (New :: unit trie) [OpAdd ''b'', OpAdd '' '', OpAdd ''b'',
          OpAddEntry (Some (Entry ''a'' None)), OpRemove ''c'', OpRemove ''b'',
          OpRemoveEntry None] = Some (t, 2, 1)"
    by blast
  have "Len t = int 2 - int 1" using r by (rule Len_counts_inserts_and_removals)
  then have "Len t = 1" by simp
  with r show ?thesis by blast
qed


section \<open>The error contract of Remove\<close>

text \<open>
  Claim C8, as stated: \<^verbatim>\<open>Remove\<close> returns a non-nil error when the trie is empty or the
  key cannot be resolved (blank key, or a key the digitizer cannot map).  On the code, a
  blank key and a key with a character outside the table both give \<^verbatim>\<open>(false, nil)\<close> on a
  non-empty trie: \<^verbatim>\<open>RemoveEntry\<close> turns every error of \<^verbatim>\<open>find\<close> into "not removed".
\<close>

theorem Remove_blank_or_unmapped_key_no_error:
  "fst (Remove (snd (Add (New :: unit trie) [''ab''])) '' '') = Inr False \<and>
   fst (Remove (snd (Add (New :: unit trie) [''ab''])) [CHR ''a'', CHR 0x01]) = Inr False"
  by code_simp

text \<open>
  Claim C8, amended: \<^verbatim>\<open>RemoveEntry\<close>, and \<^verbatim>\<open>Remove\<close>, which calls it with an entry of the key,
  returns a non-nil error when the trie is empty, and \<^verbatim>\<open>RemoveEntry\<close> when the entry is
  \<^verbatim>\<open>nil\<close>.  On a non-empty trie, when the key is blank, or the search returns an error (so
  when the digitizer cannot map a character that the search reaches), or the search does
  not classify the key as matched, it returns \<^verbatim>\<open>(false, nil)\<close> and the trie, its size
  included, is unchanged.  (A search that panics is not covered.)
\<close>

theorem Remove_error_contract:
  "Remove t v = RemoveEntry t (Some (Entry v None)) \<and>
   (IsEmpty t \<longrightarrow> RemoveEntry t entry = (Inl ErrCollectionEmpty, t)) \<and>
   (\<not> IsEmpty t \<longrightarrow> RemoveEntry t None = (Inl ErrValueRequired, t)) \<and>
   (\<not> IsEmpty t \<longrightarrow> TrimSpace (Value e) = [] \<longrightarrow> RemoveEntry t (Some e) = (Inr False, t)) \<and>
   (\<not> IsEmpty t \<longrightarrow> find t acquireSearchContext (Value e) = Inl err \<longrightarrow> \<not> crashed err \<longrightarrow>
      RemoveEntry t (Some e) = (Inr False, t)) \<and>
   (\<not> IsEmpty t \<longrightarrow> find t acquireSearchContext (Value e) = Inr (r, c) \<longrightarrow> r \<noteq> Matched \<longrightarrow>
      RemoveEntry t (Some e) = (Inr False, t))"
  by (auto simp: Remove_def RemoveEntry_def find_def crashed_def split: sum.splits prod.splits)

theorem Remove_error_contract_witness:
  "IsEmpty (New :: unit trie) \<and>
   Remove (New :: unit trie) ''ab'' = (Inl ErrCollectionEmpty, New) \<and>
   \<not> IsEmpty (snd (Add (New :: unit trie) [''ab''])) \<and>
   RemoveEntry (snd (Add (New :: unit trie) [''ab''])) None =
     (Inl ErrValueRequired, snd (Add (New :: unit trie) [''ab''])) \<and>
   Remove (snd (Add (New :: unit trie) [''ab''])) '' '' =
     (Inr False, snd (Add (New :: unit trie) [''ab''])) \<and>
   Remove (snd (Add (New :: unit trie) [''ab''])) [CHR ''a'', CHR 0x01] =
     (Inr False, snd (Add (New :: unit trie) [''ab''])) \<and>
   Remove (snd (Add (New :: unit trie) [''ab''])) ''b'' =
     (Inr False, snd (Add (New :: unit trie) [''ab'']))"
proof -
  let ?t = "snd (Add (New :: unit trie) [''ab''])"
  have a: "\<not> IsEmpty ?t" by code_simp
  have b: "TrimSpace '' '' = []" by code_simp
  have c: "IsEmpty (New :: unit trie)" by code_simp
  have d: "find ?t acquireSearchContext [CHR ''a'', CHR 0x01] = Inl ErrUnsupportedCharacter"
    by code_simp
  have "case find ?t acquireSearchContext ''b'' of Inl x \<Rightarrow> False | Inr (r, c) \<Rightarrow> r = Unmatched"
    by code_simp
  then obtain c' where e: "find ?t acquireSearchContext ''b'' = Inr (Unmatched, c')"
    by (auto split: sum.splits)
  have f: "\<not> crashed ErrUnsupportedCharacter" by (simp add: crashed_def)
  note new = Remove_error_contract[of "New :: unit trie" "''ab''" "Some (Entry ''ab'' None)"]
  note nil = Remove_error_contract[of ?t]
  note blank = Remove_error_contract[of ?t "'' ''" _ "Entry '' '' None"]
  note unmapped = Remove_error_contract[of ?t "[CHR ''a'', CHR 0x01]" _
      "Entry [CHR ''a'', CHR 0x01] None" ErrUnsupportedCharacter]
  note absent = Remove_error_contract[of ?t "''b''" _ "Entry ''b'' None" _ Unmatched c']
  have 1: "Remove (New :: unit trie) ''ab'' = (Inl ErrCollectionEmpty, New)" using new c by simp
  have 2: "RemoveEntry ?t None = (Inl ErrValueRequired, ?t)" using nil a by blast
  have 3: "Remove ?t '' '' = (Inr False, ?t)" using blank a b by simp
  have 4: "Remove ?t [CHR ''a'', CHR 0x01] = (Inr False, ?t)" using unmapped a d f by simp
  have 5: "Remove ?t ''b'' = (Inr False, ?t)" using absent a e by simp
  from a c 1 2 3 4 5 show ?thesis by blast
qed

section \<open>Failed inserts\<close>

text \<open>
  Claim C5.  The claim: an insert that returns an error leaves the node tree, the
  overlay list and the size as they were.  The code at the input "ab", then "ac" followed
  by the byte 0x7F: the second insert fails with the unsupported character, after
  \<^verbatim>\<open>addNode\<close> has attached a node for "c" below "a"; the tree has changed, and
  \<^verbatim>\<open>Predecessor("ad")\<close>, which answered "ab" before, now runs into the childless node and
  does not return.
\<close>

theorem failed_insert_leaves_partial_path:
  "fst (Add (snd (Add (New :: unit trie) [''ab''])) [[CHR ''a'', CHR ''c'', CHR 0x7F]]) =
     Some ErrUnsupportedCharacter \<and>
   root (snd (Add (snd (Add (New :: unit trie) [''ab''])) [[CHR ''a'', CHR ''c'', CHR 0x7F]])) \<noteq>
     root (snd (Add (New :: unit trie) [''ab''])) \<and>
   Predecessor (snd (Add (New :: unit trie) [''ab''])) ''ad'' = Inr (''ab'', None) \<and>
   Predecessor (snd (Add (snd (Add (New :: unit trie) [''ab''])) [[CHR ''a'', CHR ''c'', CHR 0x7F]]))
     ''ad'' = Inl NoReturn"
  by code_simp

section \<open>Trimming of keys\<close>




section \<open>Completions\<close>



section \<open>Sorted listing\<close>

text \<open>
  Claim C1.  After every run of calls of \<^verbatim>\<open>Add\<close> and \<^verbatim>\<open>Remove\<close> on a new trie (default
  digitizer) in which every call returns without error (\<open>runOk\<close>; it also admits calls that
  are refused without effect), the overlay list links, from the head to the tail, the leaf
  objects \<open>as\<close>; \<^verbatim>\<open>Entries\<close> returns their entries and \<^verbatim>\<open>Values\<close> their keys \<open>vs\<close>, in that
  order, and both leave the trie as it is; the keys are strictly ascending in the
  lexicographic order of their digit sequences; they are exactly the keys that the trie
  contains, and \<^verbatim>\<open>Len\<close> is their number.
\<close>

theorem Entries_sorted_after_successful_calls:
  assumes "runOk (New :: 'd trie) ops = Some t"
  shows "\<exists>as vs. dchain (cells t) (head t) as (tail t) \<and>
           vs = map (\<lambda>a. Value (the (lvalue (cells t ! a)))) as \<and>
           Entries t = Some (Inr (map (\<lambda>a. lvalue (cells t ! a)) as), t) \<and>
           Values t = Some (Inr vs, t) \<and>
           sorted_wrt (digitLess (digitizer t)) vs \<and>
           (\<forall>k. Contains t k = Inr (TrimSpace k \<in> set vs)) \<and>
           Len t = int (length vs)"
proof -
  from runOk_INV[OF INV_New assms] have inv: "INV t" .
  let ?as = "leaves t"
  have kv: "\<And>a. a \<in> set ?as \<Longrightarrow> Value (the (lvalue (cells t ! a))) = keyv t a \<and>
                 keyAt (cells t) a = Some (keyv t a)"
  proof -
    fix a assume "a \<in> set ?as"
    from INV_leaf[OF inv this] show "Value (the (lvalue (cells t ! a))) = keyv t a \<and>
                 keyAt (cells t) a = Some (keyv t a)"
      by (auto simp: keyv_def)
  qed
  then have vs: "map (\<lambda>a. Value (the (lvalue (cells t ! a)))) ?as = map (keyv t) ?as" by simp
  have 1: "dchain (cells t) (head t) ?as (tail t)" using inv by (simp add: INV_def)
  have 2: "Len t = int (length (map (keyv t) ?as))" using inv by (simp add: INV_def Len_def)
  have 3: "\<forall>k. Contains t k = Inr (TrimSpace k \<in> set (map (keyv t) ?as))"
  proof
    fix k
    have "(\<exists>a \<in> set ?as. keyAt (cells t) a = Some (TrimSpace k)) = (TrimSpace k \<in> set (map (keyv t) ?as))"
    proof
      assume "\<exists>a \<in> set ?as. keyAt (cells t) a = Some (TrimSpace k)"
      then obtain a where "a \<in> set ?as" "keyv t a = TrimSpace k" by (auto simp: keyv_def)
      then show "TrimSpace k \<in> set (map (keyv t) ?as)" by force
    next
      assume "TrimSpace k \<in> set (map (keyv t) ?as)"
      then obtain a where "a \<in> set ?as" "keyv t a = TrimSpace k" by auto
      with kv[of a] show "\<exists>a \<in> set ?as. keyAt (cells t) a = Some (TrimSpace k)" by auto
    qed
    then show "Contains t k = Inr (TrimSpace k \<in> set (map (keyv t) ?as))"
      by (simp add: Contains_iff[OF inv])
  qed
  show ?thesis
    using 1 2 3 vs Entries_INV[OF inv] Values_INV[OF inv] keys_sorted[OF inv]
    by (intro exI[of _ ?as] exI[of _ "map (keyv t) ?as"]) simp
qed

theorem Entries_sorted_after_successful_calls_witness:
  "\<exists>t. runOk (New :: unit trie)
          [CallAdd ''b'', CallAdd '' a'', CallAdd ''b'', CallRemove ''b'', CallAdd ''c''] = Some t \<and>
        Values t = Some (Inr [''a'', ''c''], t) \<and>
        sorted_wrt (digitLess (digitizer t)) [''a'', ''c'']"
proof -
  let ?ops = "[CallAdd ''b'', CallAdd '' a'', CallAdd ''b'', CallRemove ''b'', CallAdd ''c'']"
  have "map_option (\<lambda>t. map_option (\<lambda>r. fst r) (Values t)) (runOk (New :: unit trie) ?ops)
          = Some (Some (Inr [''a'', ''c'']))"
    by code_simp
  then obtain t where r: "runOk (New :: unit trie) ?ops = Some t"
    and v: "map_option (\<lambda>r. fst r) (Values t) = Some (Inr [''a'', ''c''])"
    by (cases "runOk (New :: unit trie) ?ops") simp_all
  from Entries_sorted_after_successful_calls[OF r] obtain vs where
    "Values t = Some (Inr vs, t)" "sorted_wrt (digitLess (digitizer t)) vs" by blast
  with v r show ?thesis by auto
qed

section \<open>Round trip\<close>

text \<open>
  Claim C3.  In a trie built from a new one by a run of calls of \<^verbatim>\<open>Add\<close> and \<^verbatim>\<open>Remove\<close> that
  returned without error (\<open>runOk\<close>): when \<^verbatim>\<open>Add(k)\<close> with a non-blank \<open>k\<close> returns no error, the
  search for \<open>k\<close> in the resulting trie answers Matched and \<^verbatim>\<open>Contains(k)\<close> is true; when
  \<^verbatim>\<open>Remove(k)\<close> returns without error, the search for \<open>k\<close> in the resulting trie does not
  answer Matched and \<^verbatim>\<open>Contains(k)\<close> is false.
\<close>

theorem round_trip:
  assumes "runOk (New :: 'd trie) ops = Some t"
  shows "(\<forall>t'. Add t [k] = (None, t') \<and> TrimSpace k \<noteq> [] \<longrightarrow>
            (\<exists>ctx. find t' acquireSearchContext k = Inr (Matched, ctx)) \<and> Contains t' k = Inr True) \<and>
         (\<forall>removed t'. Remove t k = (Inr removed, t') \<longrightarrow>
            (\<forall>ctx. find t' acquireSearchContext k \<noteq> Inr (Matched, ctx)) \<and>
            Contains t' k = Inr False)"
proof (intro conjI allI impI)
  from runOk_INV[OF INV_New assms] have inv: "INV t" .
  {
    fix t' assume "Add t [k] = (None, t') \<and> TrimSpace k \<noteq> []"
    then have "AddEntry t (Some (Entry (TrimSpace k) None)) = (None, t')"
      by (auto simp: Add.simps Let_def split: prod.splits option.splits)
    from AddEntry_INV[OF inv TrimSpace_idem this] obtain B A where
      i': "INV t'" and l: "leaves t' = B @ length (cells t) # A"
      and kv: "keyAt (cells t') (length (cells t)) = Some (TrimSpace k)"
      by blast
    from l have "length (cells t) \<in> set (leaves t')" by simp
    from find_stored[OF i' this kv]
    have "find t' acquireSearchContext (TrimSpace k) = Inr (Matched, posCtx (keyPath (TrimSpace k)))"
      by blast
    then have f: "find t' acquireSearchContext k = Inr (Matched, posCtx (keyPath (TrimSpace k)))"
      by (simp add: find_trim)
    then show "\<exists>ctx. find t' acquireSearchContext k = Inr (Matched, ctx)" by blast
    from find_Matched_Contains[OF f] show "Contains t' k = Inr True" .
  }
  {
    fix removed t' assume rm: "Remove t k = (Inr removed, t')"
    have nc: "Contains t' k = Inr False"
    proof (cases removed)
      case False
      with rm have "Remove t k = (Inr False, t')" by simp
      from Remove_False[OF this] show ?thesis by simp
    next
      case True
      with rm have "Remove t k = (Inr True, t')" by simp
      from Remove_INV[OF inv this] obtain B a A where
        i': "INV t'" and ks: "keyAt (cells t') = keyAt (cells t)"
        and l: "leaves t = B @ a # A" and l': "leaves t' = B @ A"
        and kv: "keyAt (cells t) a = Some (TrimSpace k)"
        by blast
      have "\<not> (\<exists>b \<in> set (leaves t'). keyAt (cells t') b = Some (TrimSpace k))"
      proof
        assume "\<exists>b \<in> set (leaves t'). keyAt (cells t') b = Some (TrimSpace k)"
        with ks l' obtain b where
          b: "b \<in> set (B @ A)" "keyAt (cells t) b = Some (TrimSpace k)" by auto
        have "a \<in> set (leaves t)" "b \<in> set (leaves t)" using l b(1) by auto
        from leaf_key_inj[OF inv this(1) kv this(2) b(2)] have "a = b" .
        moreover have "distinct (B @ a # A)" using INV_distinct[OF inv] l by simp
        ultimately show False using b(1) by auto
      qed
      then show ?thesis by (simp add: Contains_iff[OF i'])
    qed
    then show "Contains t' k = Inr False" .
    from nc show "\<And>ctx. find t' acquireSearchContext k \<noteq> Inr (Matched, ctx)"
      using find_Matched_Contains[of t' k] by auto
  }
qed

theorem round_trip_witness:
  "\<exists>t t1 t2. runOk (New :: unit trie) [CallAdd ''ab''] = Some t \<and>
     Add t ['' abc ''] = (None, t1) \<and> Contains t1 '' abc '' = Inr True \<and>
     Remove t ''ab'' = (Inr True, t2) \<and> Contains t2 ''ab'' = Inr False"
proof -
  let ?ops = "[CallAdd ''ab'']"
  have "map_option (\<lambda>t. (fst (Add t ['' abc '']), fst (Remove t ''ab''), TrimSpace '' abc '' \<noteq> []))
          (runOk (New :: unit trie) ?ops) = Some (None, Inr True, True)"
    by code_simp
  then obtain t where r: "runOk (New :: unit trie) ?ops = Some t"
    and a: "fst (Add t ['' abc '']) = None" and m: "fst (Remove t ''ab'') = Inr True"
    and b: "TrimSpace '' abc '' \<noteq> []"
    by (cases "runOk (New :: unit trie) ?ops") simp_all
  from a obtain t1 where t1: "Add t ['' abc ''] = (None, t1)" by (cases "Add t ['' abc '']") simp
  from m obtain t2 where t2: "Remove t ''ab'' = (Inr True, t2)" by (cases "Remove t ''ab''") simp
  from round_trip[OF r, of "'' abc ''"] t1 b have "Contains t1 '' abc '' = Inr True" by blast
  moreover from round_trip[OF r, of "''ab''"] t2 have "Contains t2 ''ab'' = Inr False" by blast
  ultimately show ?thesis using r t1 t2 by blast
qed

section \<open>Predecessor and successor\<close>

text \<open>
  Claim C7.  The claim: in every non-empty trie, \<^verbatim>\<open>Predecessor\<close> of the minimum fails with
  the not-found error.  The code at the input "ab", then "aa" followed by the byte 0x7F:
  the second insert fails with the unsupported character, after \<^verbatim>\<open>addNode\<close> has attached
  a node for the second "a" below the first.  "ab" is the only key, the minimum and the
  maximum.  \<^verbatim>\<open>Predecessor("ab")\<close> failed with not-found before the failed insert;
  after it, the search for a left fork descends into the childless node, and
  \<^verbatim>\<open>moveToMaxDescendant\<close> does not return.
\<close>

theorem Predecessor_of_minimum_after_failed_insert:
  "Predecessor (snd (Add (New :: unit trie) [''ab''])) ''ab'' = Inr (''ab'', Some ErrNotFound) \<and>
   fst (Add (snd (Add (New :: unit trie) [''ab''])) [[CHR ''a'', CHR ''a'', CHR 0x7F]]) =
     Some ErrUnsupportedCharacter \<and>
   \<not> IsEmpty (snd (Add (snd (Add (New :: unit trie) [''ab''])) [[CHR ''a'', CHR ''a'', CHR 0x7F]])) \<and>
   Min (snd (Add (snd (Add (New :: unit trie) [''ab''])) [[CHR ''a'', CHR ''a'', CHR 0x7F]])) =
     Inr ''ab'' \<and>
   Predecessor (snd (Add (snd (Add (New :: unit trie) [''ab''])) [[CHR ''a'', CHR ''a'', CHR 0x7F]]))
     ''ab'' = Inl NoReturn"
  by code_simp

text \<open>
  The property of claim C7 where no insert has failed halfway: in a non-empty trie built
  from a new one by a run of calls of \<^verbatim>\<open>Add\<close> and \<^verbatim>\<open>Remove\<close> that returned without error
  (\<open>runOk\<close>), \<^verbatim>\<open>Min\<close> and \<^verbatim>\<open>Max\<close> return keys \<open>mn\<close> and \<open>mx\<close>; \<^verbatim>\<open>Predecessor(mn)\<close> and
  \<^verbatim>\<open>Successor(mx)\<close> fail with the not-found error; for every contained key other than \<open>mn\<close>,
  \<^verbatim>\<open>Predecessor\<close> returns a key whose \<^verbatim>\<open>Successor\<close> is the key again, and for every
  contained key other than \<open>mx\<close>, \<^verbatim>\<open>Successor\<close> returns a key whose \<^verbatim>\<open>Predecessor\<close> is the
  key again.
\<close>

theorem Predecessor_Successor_consistent:
  assumes "runOk (New :: 'd trie) ops = Some t" and "\<not> IsEmpty t"
  shows "\<exists>mn mx. Min t = Inr mn \<and> Max t = Inr mx \<and>
           Predecessor t mn = Inr (mn, Some ErrNotFound) \<and>
           Successor t mx = Inr (mx, Some ErrNotFound) \<and>
           (\<forall>k. Contains t k = Inr True \<and> TrimSpace k \<noteq> mn \<longrightarrow>
                (\<exists>p. Predecessor t k = Inr (p, None) \<and> Successor t p = Inr (TrimSpace k, None))) \<and>
           (\<forall>k. Contains t k = Inr True \<and> TrimSpace k \<noteq> mx \<longrightarrow>
                (\<exists>s. Successor t k = Inr (s, None) \<and> Predecessor t s = Inr (TrimSpace k, None)))"
proof -
  from runOk_INV[OF INV_New assms(1)] have inv: "INV t" .
  note ne0 = assms(2)
  from inv assms(2) have ne: "leaves t \<noteq> []" by (auto simp: INV_def IsEmpty_def Len_def)
  have kv: "\<And>a. a \<in> set (leaves t) \<Longrightarrow> keyAt (cells t) a = Some (keyv t a)"
  proof -
    fix a assume "a \<in> set (leaves t)"
    from INV_leaf[OF inv this] show "keyAt (cells t) a = Some (keyv t a)" by (auto simp: keyv_def)
  qed
  let ?mn = "keyv t (hd (leaves t))"
  let ?mx = "keyv t (last (leaves t))"
  have 1: "Predecessor t ?mn = Inr (?mn, Some ErrNotFound)"
  proof -
    from ne have l: "leaves t = [] @ hd (leaves t) # tl (leaves t)" by simp
    from Predecessor_stored[OF inv l kv] ne show ?thesis by simp
  qed
  have 2: "Successor t ?mx = Inr (?mx, Some ErrNotFound)"
  proof -
    from ne have l: "leaves t = butlast (leaves t) @ last (leaves t) # []" by simp
    from Successor_stored[OF inv l kv] ne show ?thesis by simp
  qed
  have 3: "\<forall>k. Contains t k = Inr True \<and> TrimSpace k \<noteq> ?mn \<longrightarrow>
                (\<exists>p. Predecessor t k = Inr (p, None) \<and> Successor t p = Inr (TrimSpace k, None))"
  proof (intro allI impI)
    fix k assume k: "Contains t k = Inr True \<and> TrimSpace k \<noteq> ?mn"
    with Contains_iff[OF inv, of k] obtain a where
      a: "a \<in> set (leaves t)" "keyAt (cells t) a = Some (TrimSpace k)" by auto
    from a(1) obtain B A where l: "leaves t = B @ a # A" by (auto dest: split_list)
    from a(2) have ka: "keyv t a = TrimSpace k" by (simp add: keyv_def)
    have "B \<noteq> []"
    proof
      assume "B = []"
      with l have "hd (leaves t) = a" by simp
      with ka k show False by simp
    qed
    then obtain B' b where B: "B = B' @ [b]" by (cases B rule: rev_cases) auto
    from Predecessor_stored[OF inv l a(2)] B
    have p: "Predecessor t k = Inr (keyv t b, None)" by (simp add: Predecessor_trim[OF ne0])
    from l B have l2: "leaves t = B' @ b # (a # A)" by simp
    then have "b \<in> set (leaves t)" by simp
    from Successor_stored[OF inv l2 kv[OF this]] ka
    have "Successor t (keyv t b) = Inr (TrimSpace k, None)" by simp
    with p show "\<exists>p. Predecessor t k = Inr (p, None) \<and> Successor t p = Inr (TrimSpace k, None)"
      by blast
  qed
  have 4: "\<forall>k. Contains t k = Inr True \<and> TrimSpace k \<noteq> ?mx \<longrightarrow>
                (\<exists>s. Successor t k = Inr (s, None) \<and> Predecessor t s = Inr (TrimSpace k, None))"
  proof (intro allI impI)
    fix k assume k: "Contains t k = Inr True \<and> TrimSpace k \<noteq> ?mx"
    with Contains_iff[OF inv, of k] obtain a where
      a: "a \<in> set (leaves t)" "keyAt (cells t) a = Some (TrimSpace k)" by auto
    from a(1) obtain B A where l: "leaves t = B @ a # A" by (auto dest: split_list)
    from a(2) have ka: "keyv t a = TrimSpace k" by (simp add: keyv_def)
    have "A \<noteq> []"
    proof
      assume "A = []"
      with l have "last (leaves t) = a" by simp
      with ka k show False by simp
    qed
    then obtain b A' where A: "A = b # A'" by (cases A) auto
    from Successor_stored[OF inv l a(2)] A
    have s: "Successor t k = Inr (keyv t b, None)" by (simp add: Successor_trim[OF ne0])
    from l A have l2: "leaves t = (B @ [a]) @ b # A'" by simp
    then have "b \<in> set (leaves t)" by simp
    from Predecessor_stored[OF inv l2 kv[OF this]] ka
    have "Predecessor t (keyv t b) = Inr (TrimSpace k, None)" by simp
    with s show "\<exists>s. Successor t k = Inr (s, None) \<and> Predecessor t s = Inr (TrimSpace k, None)"
      by blast
  qed
  from Min_INV[OF inv ne] Max_INV[OF inv ne] 1 2 3 4 show ?thesis by blast
qed

theorem Predecessor_Successor_consistent_witness:
  "\<exists>t. runOk (New :: unit trie) [CallAdd ''b'', CallAdd ''a'', CallAdd ''c''] = Some t \<and>
        \<not> IsEmpty t \<and>
        Predecessor t ''a'' = Inr (''a'', Some ErrNotFound) \<and>
        Successor t ''c'' = Inr (''c'', Some ErrNotFound) \<and>
        (\<exists>p. Predecessor t ''b'' = Inr (p, None) \<and> Successor t p = Inr (''b'', None)) \<and>
        (\<exists>s. Successor t ''b'' = Inr (s, None) \<and> Predecessor t s = Inr (''b'', None))"
proof -
  let ?ops = "[CallAdd ''b'', CallAdd ''a'', CallAdd ''c'']"
  have "map_option (\<lambda>t. (IsEmpty t, Min t, Max t, Contains t ''b'', TrimSpace ''b''))
          (runOk (New :: unit trie) ?ops) = Some (False, Inr ''a'', Inr ''c'', Inr True, ''b'')"
    by code_simp
  then obtain t where r: "runOk (New :: unit trie) ?ops = Some t"
    and e: "\<not> IsEmpty t" "Min t = Inr ''a''" "Max t = Inr ''c''" "Contains t ''b'' = Inr True"
      "TrimSpace ''b'' = ''b''"
    by (cases "runOk (New :: unit trie) ?ops") simp_all
  from Predecessor_Successor_consistent[OF r e(1)] obtain mn mx where
    m: "Min t = Inr mn" "Max t = Inr mx" "Predecessor t mn = Inr (mn, Some ErrNotFound)"
       "Successor t mx = Inr (mx, Some ErrNotFound)"
    and p: "\<forall>k. Contains t k = Inr True \<and> TrimSpace k \<noteq> mn \<longrightarrow>
                (\<exists>p. Predecessor t k = Inr (p, None) \<and> Successor t p = Inr (TrimSpace k, None))"
    and s: "\<forall>k. Contains t k = Inr True \<and> TrimSpace k \<noteq> mx \<longrightarrow>
                (\<exists>s. Successor t k = Inr (s, None) \<and> Predecessor t s = Inr (TrimSpace k, None))"
    by blast
  from m e have mn: "mn = ''a''" and mx: "mx = ''c''" by simp_all
  from p[rule_format, of "''b''"] e mn
  have 1: "\<exists>p. Predecessor t ''b'' = Inr (p, None) \<and> Successor t p = Inr (''b'', None)" by simp
  from s[rule_format, of "''b''"] e mx
  have 2: "\<exists>s. Successor t ''b'' = Inr (s, None) \<and> Predecessor t s = Inr (''b'', None)" by simp
  from r e(1) m mn mx 1 2 show ?thesis by blast
qed

end
